theory Spec2Isabelle
  imports Main "HOL-Library.Word" "HOL-Library.AList"
begin

section \<open>JavaScript values and strings\<close>

text \<open>
  A JavaScript string is a sequence of UTF-16 code units. The embedding keeps that: a
  string is a list of 16-bit words, and \<open>S ''abc''\<close> is the string of an ASCII literal.
\<close>

type_synonym jstring = "16 word list"

definition S :: "string \<Rightarrow> jstring" where
  "S cs = map of_char cs"

text \<open>
  Values: the JSON data model plus \<open>undefined\<close>. A number \<open>JNum m e\<close> stands for the
  decimal \<open>m * 10 ^ e\<close>, kept in the normal form that \<open>Number::toString\<close> prints from
  (mantissa not divisible by ten, zero as \<open>JNum 0 0\<close>). Decimal literals are read
  exactly: the rounding of a literal to the nearest IEEE double is outside the embedding,
  which therefore agrees with the platform on decimals of at most 15 significant digits
  within the double range. Negative zero is a value of its own, \<open>JNegZero\<close>: it prints
  as \<open>0\<close>, and only the literal \<open>-0\<close> is read as it. An object is the list of its
  own enumerable string-keyed properties in creation order (an engine lists keys that
  are array indices first, in ascending order; the embedding keeps creation order for
  every key).
\<close>

datatype jsval =
    JUndefined
  | JNull
  | JBool bool
  | JNum int int
  | JNegZero
  | JStr jstring
  | JArr "jsval list"
  | JObj "(jstring \<times> jsval) list"

text \<open>The exceptions the modelled code can raise.\<close>

datatype error =
    URIError
  | SyntaxError
  | TypeError
  | Error jstring

subsection \<open>String.prototype.split and Array.prototype.join\<close>

text \<open>
  \<open>str.split(sep)\<close> with a one-character separator cuts at every occurrence of the
  separator; the result is never empty (\<open>''.split('&')\<close> is \<open>['']\<close>).
\<close>

fun split :: "16 word \<Rightarrow> jstring \<Rightarrow> jstring list" where
  "split sep [] = [[]]"
| "split sep (c # cs) =
     (if c = sep then [] # split sep cs
      else (case split sep cs of [] \<Rightarrow> [[c]] | w # ws \<Rightarrow> (c # w) # ws))"

fun join :: "jstring \<Rightarrow> jstring list \<Rightarrow> jstring" where
  "join sep [] = []"
| "join sep [x] = x"
| "join sep (x # y # ys) = x @ sep @ join sep (y # ys)"

subsection \<open>Decimal digits\<close>

definition is_digit :: "16 word \<Rightarrow> bool" where
  "is_digit c \<longleftrightarrow> 0x30 \<le> c \<and> c \<le> 0x39"

definition digit_val :: "16 word \<Rightarrow> nat" where
  "digit_val c = unat c - 48"

definition digit_char :: "nat \<Rightarrow> 16 word" where
  "digit_char d = of_nat (48 + d)"

fun nat_of_digits :: "nat \<Rightarrow> jstring \<Rightarrow> nat" where
  "nat_of_digits acc [] = acc"
| "nat_of_digits acc (c # cs) = nat_of_digits (10 * acc + digit_val c) cs"

function digits_of_nat :: "nat \<Rightarrow> jstring" where
  "digits_of_nat n =
     (if n < 10 then [digit_char n]
      else digits_of_nat (n div 10) @ [digit_char (n mod 10)])"
  by pat_completeness auto
termination
  by (relation "measure id") auto

declare digits_of_nat.simps [simp del]

text \<open>Normal form of a decimal: trailing zeros of the mantissa move into the exponent.\<close>

function strip_zeros :: "nat \<Rightarrow> int \<Rightarrow> nat \<times> int" where
  "strip_zeros m e =
     (if m \<noteq> 0 \<and> m mod 10 = 0 then strip_zeros (m div 10) (e + 1) else (m, e))"
  by pat_completeness auto
termination
  by (relation "measure fst") auto

declare strip_zeros.simps [simp del]

definition mk_num :: "bool \<Rightarrow> nat \<Rightarrow> int \<Rightarrow> jsval" where
  "mk_num neg m e =
     (if m = 0 then (if neg then JNegZero else JNum 0 0)
      else case strip_zeros m e of
             (m', e') \<Rightarrow> JNum (if neg then - int m' else int m') e')"

text \<open>
  \<open>Number::toString\<close> (ECMA-262, radix 10): with \<open>k\<close> digits \<open>s\<close> and the decimal point
  after the \<open>n\<close>-th digit, the number prints as an integer, a fixed-point decimal or in
  exponent notation.
\<close>

definition number_to_string :: "int \<Rightarrow> int \<Rightarrow> jstring" where
  "number_to_string m e =
     (if m = 0 then S ''0''
      else
        let (a, e') = strip_zeros (nat \<bar>m\<bar>) e;
            s = digits_of_nat a;
            k = int (length s);
            n = k + e';
            sign = (if m < 0 then S ''-'' else []);
            body =
              (if k \<le> n \<and> n \<le> 21 then s @ replicate (nat (n - k)) 0x30
               else if 0 < n \<and> n \<le> 21 then take (nat n) s @ S ''.'' @ drop (nat n) s
               else if - 6 < n \<and> n \<le> 0 then S ''0.'' @ replicate (nat (- n)) 0x30 @ s
               else
                 (if k = 1 then s else take 1 s @ S ''.'' @ drop 1 s)
                 @ S ''e'' @ (if n - 1 < 0 then S ''-'' else S ''+'')
                 @ digits_of_nat (nat \<bar>n - 1\<bar>))
        in sign @ body)"

subsection \<open>encodeURIComponent and decodeURIComponent\<close>

text \<open>
  ECMA-262, \<open>Encode\<close> and \<open>Decode\<close> with the sets of \<open>encodeURIComponent\<close> and
  \<open>decodeURIComponent\<close>. Encoding reads the string by code points (an unpaired surrogate
  raises \<open>URIError\<close>), keeps the unreserved characters and writes every other code
  point as the percent-escaped octets of its UTF-8 form. Decoding reads \<open>%XX\<close> escapes
  as octets, requires the octets to be well-formed UTF-8, and raises \<open>URIError\<close> on
  every malformed escape.
\<close>

definition is_high_surrogate :: "16 word \<Rightarrow> bool" where
  "is_high_surrogate c \<longleftrightarrow> 0xD800 \<le> c \<and> c \<le> 0xDBFF"

definition is_low_surrogate :: "16 word \<Rightarrow> bool" where
  "is_low_surrogate c \<longleftrightarrow> 0xDC00 \<le> c \<and> c \<le> 0xDFFF"

definition surrogate_pair :: "16 word \<Rightarrow> 16 word \<Rightarrow> nat" where
  "surrogate_pair h l = 0x10000 + (unat h - 0xD800) * 0x400 + (unat l - 0xDC00)"

fun code_points :: "jstring \<Rightarrow> nat list option" where
  "code_points [] = Some []"
| "code_points (c # cs) =
     (if is_high_surrogate c then
        (case cs of
           [] \<Rightarrow> None
         | d # ds \<Rightarrow>
             if is_low_surrogate d
             then map_option ((#) (surrogate_pair c d)) (code_points ds)
             else None)
      else if is_low_surrogate c then None
      else map_option ((#) (unat c)) (code_points cs))"

definition utf16_encode :: "nat \<Rightarrow> jstring" where
  "utf16_encode cp =
     (if cp < 0x10000 then [of_nat cp]
      else [of_nat (0xD800 + (cp - 0x10000) div 0x400),
            of_nat (0xDC00 + (cp - 0x10000) mod 0x400)])"

definition utf8_encode :: "nat \<Rightarrow> nat list" where
  "utf8_encode cp =
     (if cp < 0x80 then [cp]
      else if cp < 0x800 then [0xC0 + cp div 64, 0x80 + cp mod 64]
      else if cp < 0x10000 then
        [0xE0 + cp div 4096, 0x80 + cp div 64 mod 64, 0x80 + cp mod 64]
      else
        [0xF0 + cp div 262144, 0x80 + cp div 4096 mod 64,
         0x80 + cp div 64 mod 64, 0x80 + cp mod 64])"

definition is_cont :: "nat \<Rightarrow> bool" where
  "is_cont b \<longleftrightarrow> 0x80 \<le> b \<and> b < 0xC0"

definition utf8_decode2 :: "nat \<Rightarrow> nat \<Rightarrow> nat option" where
  "utf8_decode2 b1 b2 =
     (let cp = (b1 - 0xC0) * 64 + (b2 - 0x80)
      in if is_cont b2 \<and> 0x80 \<le> cp then Some cp else None)"

definition utf8_decode3 :: "nat \<Rightarrow> nat \<Rightarrow> nat \<Rightarrow> nat option" where
  "utf8_decode3 b1 b2 b3 =
     (let cp = (b1 - 0xE0) * 4096 + (b2 - 0x80) * 64 + (b3 - 0x80)
      in if is_cont b2 \<and> is_cont b3 \<and> 0x800 \<le> cp \<and> \<not> (0xD800 \<le> cp \<and> cp \<le> 0xDFFF)
         then Some cp else None)"

definition utf8_decode4 :: "nat \<Rightarrow> nat \<Rightarrow> nat \<Rightarrow> nat \<Rightarrow> nat option" where
  "utf8_decode4 b1 b2 b3 b4 =
     (let cp = (b1 - 0xF0) * 262144 + (b2 - 0x80) * 4096 + (b3 - 0x80) * 64 + (b4 - 0x80)
      in if is_cont b2 \<and> is_cont b3 \<and> is_cont b4 \<and> 0x10000 \<le> cp \<and> cp \<le> 0x10FFFF
         then Some cp else None)"

definition hex_char :: "nat \<Rightarrow> 16 word" where
  "hex_char d = of_nat (if d < 10 then 48 + d else 55 + d)"

definition hex_val :: "16 word \<Rightarrow> nat option" where
  "hex_val c =
     (if 0x30 \<le> c \<and> c \<le> 0x39 then Some (unat c - 48)
      else if 0x41 \<le> c \<and> c \<le> 0x46 then Some (unat c - 55)
      else if 0x61 \<le> c \<and> c \<le> 0x66 then Some (unat c - 87)
      else None)"

definition pct_octet :: "nat \<Rightarrow> jstring" where
  "pct_octet b = [0x25, hex_char (b div 16), hex_char (b mod 16)]"

definition uri_unreserved :: "16 word \<Rightarrow> bool" where
  "uri_unreserved c \<longleftrightarrow>
     (0x41 \<le> c \<and> c \<le> 0x5A) \<or> (0x61 \<le> c \<and> c \<le> 0x7A) \<or> is_digit c
     \<or> c \<in> {0x2D, 0x5F, 0x2E, 0x21, 0x7E, 0x2A, 0x27, 0x28, 0x29}"

definition encode_code_point :: "nat \<Rightarrow> jstring" where
  "encode_code_point cp =
     (if cp < 0x80 \<and> uri_unreserved (of_nat cp) then [of_nat cp]
      else concat (map pct_octet (utf8_encode cp)))"

definition encodeURIComponent :: "jstring \<Rightarrow> error + jstring" where
  "encodeURIComponent s =
     (case code_points s of
        None \<Rightarrow> Inl URIError
      | Some cps \<Rightarrow> Inr (concat (map encode_code_point cps)))"

datatype uri_token = Lit "16 word" | Octet nat

fun uri_tokens :: "jstring \<Rightarrow> uri_token list option" where
  "uri_tokens [] = Some []"
| "uri_tokens (c # cs) =
     (if c = 0x25 then
        (case cs of
           h # l # r \<Rightarrow>
             (case (hex_val h, hex_val l) of
                (Some a, Some b) \<Rightarrow> map_option ((#) (Octet (16 * a + b))) (uri_tokens r)
              | _ \<Rightarrow> None)
         | _ \<Rightarrow> None)
      else map_option ((#) (Lit c)) (uri_tokens cs))"

fun uri_units :: "uri_token list \<Rightarrow> jstring option" where
  "uri_units [] = Some []"
| "uri_units (Lit c # ts) = map_option ((#) c) (uri_units ts)"
| "uri_units (Octet b # ts) =
     (if b < 0x80 then map_option ((#) (of_nat b)) (uri_units ts)
      else if 0xC0 \<le> b \<and> b < 0xE0 then
        (case ts of
           Octet b2 # r \<Rightarrow>
             (case utf8_decode2 b b2 of
                None \<Rightarrow> None
              | Some cp \<Rightarrow> map_option ((@) (utf16_encode cp)) (uri_units r))
         | _ \<Rightarrow> None)
      else if 0xE0 \<le> b \<and> b < 0xF0 then
        (case ts of
           Octet b2 # Octet b3 # r \<Rightarrow>
             (case utf8_decode3 b b2 b3 of
                None \<Rightarrow> None
              | Some cp \<Rightarrow> map_option ((@) (utf16_encode cp)) (uri_units r))
         | _ \<Rightarrow> None)
      else if 0xF0 \<le> b \<and> b < 0xF8 then
        (case ts of
           Octet b2 # Octet b3 # Octet b4 # r \<Rightarrow>
             (case utf8_decode4 b b2 b3 b4 of
                None \<Rightarrow> None
              | Some cp \<Rightarrow> map_option ((@) (utf16_encode cp)) (uri_units r))
         | _ \<Rightarrow> None)
      else None)"

definition decodeURIComponent :: "jstring \<Rightarrow> error + jstring" where
  "decodeURIComponent s =
     (case uri_tokens s of
        None \<Rightarrow> Inl URIError
      | Some ts \<Rightarrow> (case uri_units ts of None \<Rightarrow> Inl URIError | Some r \<Rightarrow> Inr r))"

subsection \<open>JSON.parse\<close>

text \<open>
  The JSON grammar of ECMA-404 as \<open>JSON.parse\<close> reads it: white space is space, tab,
  line feed and carriage return; a string holds no raw control character; a number has no
  leading zero, and a fraction or exponent has at least one digit; a member repeated in an
  object keeps its first position and its last value.
\<close>

definition is_ws :: "16 word \<Rightarrow> bool" where
  "is_ws c \<longleftrightarrow> c = 0x20 \<or> c = 0x09 \<or> c = 0x0A \<or> c = 0x0D"

definition skip_ws :: "jstring \<Rightarrow> jstring" where
  "skip_ws cs = dropWhile is_ws cs"

definition hex4 :: "16 word \<Rightarrow> 16 word \<Rightarrow> 16 word \<Rightarrow> 16 word \<Rightarrow> 16 word option" where
  "hex4 a b c d =
     (case (hex_val a, hex_val b, hex_val c, hex_val d) of
        (Some w, Some x, Some y, Some z) \<Rightarrow> Some (of_nat (4096 * w + 256 * x + 16 * y + z))
      | _ \<Rightarrow> None)"

definition json_escape :: "16 word \<Rightarrow> 16 word option" where
  "json_escape c =
     (if c = 0x22 \<or> c = 0x5C \<or> c = 0x2F then Some c
      else if c = 0x62 then Some 0x08
      else if c = 0x66 then Some 0x0C
      else if c = 0x6E then Some 0x0A
      else if c = 0x72 then Some 0x0D
      else if c = 0x74 then Some 0x09
      else None)"

text \<open>The characters of a string after its opening quote, up to the closing quote.\<close>

fun json_string :: "jstring \<Rightarrow> (jstring \<times> jstring) option" where
  "json_string [] = None"
| "json_string (c # cs) =
     (if c = 0x22 then Some ([], cs)
      else if c = 0x5C then
        (case cs of
           [] \<Rightarrow> None
         | e # r \<Rightarrow>
             if e = 0x75 then
               (case r of
                  h1 # h2 # h3 # h4 # r' \<Rightarrow>
                    (case hex4 h1 h2 h3 h4 of
                       None \<Rightarrow> None
                     | Some u \<Rightarrow> map_option (apfst ((#) u)) (json_string r'))
                | _ \<Rightarrow> None)
             else
               (case json_escape e of
                  None \<Rightarrow> None
                | Some x \<Rightarrow> map_option (apfst ((#) x)) (json_string r)))
      else if c < 0x20 then None
      else map_option (apfst ((#) c)) (json_string cs))"

definition json_fraction :: "jstring \<Rightarrow> (jstring \<times> jstring) option" where
  "json_fraction cs =
     (case cs of
        [] \<Rightarrow> Some ([], [])
      | c # r \<Rightarrow>
          if c = 0x2E then
            (if takeWhile is_digit r = [] then None
             else Some (takeWhile is_digit r, dropWhile is_digit r))
          else Some ([], cs))"

definition json_exponent :: "jstring \<Rightarrow> (int \<times> jstring) option" where
  "json_exponent cs =
     (case cs of
        [] \<Rightarrow> Some (0, [])
      | c # r \<Rightarrow>
          if c = 0x65 \<or> c = 0x45 then
            (let neg = (case r of [] \<Rightarrow> False | d # _ \<Rightarrow> d = 0x2D);
                 r' = (case r of [] \<Rightarrow> [] | d # t \<Rightarrow> if d = 0x2D \<or> d = 0x2B then t else r);
                 ds = takeWhile is_digit r'
             in if ds = [] then None
                else Some ((if neg then - int (nat_of_digits 0 ds) else int (nat_of_digits 0 ds)),
                           dropWhile is_digit r'))
          else Some (0, cs))"

definition json_number :: "jstring \<Rightarrow> (jsval \<times> jstring) option" where
  "json_number cs =
     (let neg = (case cs of [] \<Rightarrow> False | c # _ \<Rightarrow> c = 0x2D);
          r0 = (if neg then tl cs else cs);
          ip = takeWhile is_digit r0
      in if ip = [] \<or> (1 < length ip \<and> hd ip = 0x30) then None
         else
           (case json_fraction (dropWhile is_digit r0) of
              None \<Rightarrow> None
            | Some (fp, r2) \<Rightarrow>
                (case json_exponent r2 of
                   None \<Rightarrow> None
                 | Some (ex, r3) \<Rightarrow>
                     Some (mk_num neg (nat_of_digits 0 (ip @ fp)) (ex - int (length fp)), r3))))"

datatype 'a presult = Ok 'a jstring | Fail | OutOfFuel

text \<open>
  The recursive descent takes fuel, one unit for each call; \<open>JSON_parse\<close> gives it more
  than a text of that length can use (lemma \<open>JSON_parse_fuel\<close> below).
\<close>

fun parse_value :: "nat \<Rightarrow> jstring \<Rightarrow> jsval presult"
  and parse_elements :: "nat \<Rightarrow> jstring \<Rightarrow> jsval list \<Rightarrow> jsval presult"
  and parse_members :: "nat \<Rightarrow> jstring \<Rightarrow> (jstring \<times> jsval) list \<Rightarrow> jsval presult"
where
  "parse_value 0 cs = OutOfFuel"
| "parse_value (Suc n) cs =
     (case skip_ws cs of
        [] \<Rightarrow> Fail
      | c # r \<Rightarrow>
          if c = 0x5B then
            (case skip_ws r of
               [] \<Rightarrow> Fail
             | d # r' \<Rightarrow> if d = 0x5D then Ok (JArr []) r' else parse_elements n r [])
          else if c = 0x7B then
            (case skip_ws r of
               [] \<Rightarrow> Fail
             | d # r' \<Rightarrow> if d = 0x7D then Ok (JObj []) r' else parse_members n r [])
          else if c = 0x22 then
            (case json_string r of None \<Rightarrow> Fail | Some (s, r') \<Rightarrow> Ok (JStr s) r')
          else if take 4 (c # r) = S ''true'' then Ok (JBool True) (drop 4 (c # r))
          else if take 5 (c # r) = S ''false'' then Ok (JBool False) (drop 5 (c # r))
          else if take 4 (c # r) = S ''null'' then Ok JNull (drop 4 (c # r))
          else
            (case json_number (c # r) of None \<Rightarrow> Fail | Some (v, r') \<Rightarrow> Ok v r'))"
| "parse_elements 0 cs acc = OutOfFuel"
| "parse_elements (Suc n) cs acc =
     (case parse_value n cs of
        Ok v r \<Rightarrow>
          (case skip_ws r of
             [] \<Rightarrow> Fail
           | d # r' \<Rightarrow>
               if d = 0x2C then parse_elements n r' (acc @ [v])
               else if d = 0x5D then Ok (JArr (acc @ [v])) r'
               else Fail)
      | Fail \<Rightarrow> Fail
      | OutOfFuel \<Rightarrow> OutOfFuel)"
| "parse_members 0 cs acc = OutOfFuel"
| "parse_members (Suc n) cs acc =
     (case skip_ws cs of
        [] \<Rightarrow> Fail
      | q # r \<Rightarrow>
          if q \<noteq> 0x22 then Fail
          else
            (case json_string r of
               None \<Rightarrow> Fail
             | Some (k, r1) \<Rightarrow>
                 (case skip_ws r1 of
                    [] \<Rightarrow> Fail
                  | c # r2 \<Rightarrow>
                      if c \<noteq> 0x3A then Fail
                      else
                        (case parse_value n r2 of
                           Ok v r3 \<Rightarrow>
                             (case skip_ws r3 of
                                [] \<Rightarrow> Fail
                              | d # r4 \<Rightarrow>
                                  if d = 0x2C then parse_members n r4 (AList.update k v acc)
                                  else if d = 0x7D then Ok (JObj (AList.update k v acc)) r4
                                  else Fail)
                         | Fail \<Rightarrow> Fail
                         | OutOfFuel \<Rightarrow> OutOfFuel))))"

definition JSON_parse :: "jstring \<Rightarrow> error + jsval" where
  "JSON_parse text =
     (case parse_value (2 * length text + 1) text of
        Ok v r \<Rightarrow> if skip_ws r = [] then Inr v else Inl SyntaxError
      | Fail \<Rightarrow> Inl SyntaxError
      | OutOfFuel \<Rightarrow> Inl SyntaxError)"

subsection \<open>JSON.stringify, ToString and typeof\<close>

text \<open>
  \<open>QuoteJSONString\<close>: the short escapes, a four-digit lower-case hexadecimal escape for
  the other control characters and for a surrogate without its partner, every other code
  unit as it is.
\<close>

definition hex_char_lower :: "nat \<Rightarrow> 16 word" where
  "hex_char_lower d = of_nat (if d < 10 then 48 + d else 87 + d)"

definition unicode_escape :: "16 word \<Rightarrow> jstring" where
  "unicode_escape c =
     [0x5C, 0x75, hex_char_lower (unat c div 4096), hex_char_lower (unat c div 256 mod 16),
      hex_char_lower (unat c div 16 mod 16), hex_char_lower (unat c mod 16)]"

definition quote_unit :: "16 word \<Rightarrow> jstring" where
  "quote_unit c =
     (if c = 0x08 then [0x5C, 0x62]
      else if c = 0x09 then [0x5C, 0x74]
      else if c = 0x0A then [0x5C, 0x6E]
      else if c = 0x0C then [0x5C, 0x66]
      else if c = 0x0D then [0x5C, 0x72]
      else if c = 0x22 then [0x5C, 0x22]
      else if c = 0x5C then [0x5C, 0x5C]
      else if c < 0x20 \<or> is_high_surrogate c \<or> is_low_surrogate c then unicode_escape c
      else [c])"

fun quote_units :: "jstring \<Rightarrow> jstring" where
  "quote_units [] = []"
| "quote_units [c] = quote_unit c"
| "quote_units (c # d # ds) =
     (if is_high_surrogate c \<and> is_low_surrogate d then c # d # quote_units ds
      else quote_unit c @ quote_units (d # ds))"

definition json_quote :: "jstring \<Rightarrow> jstring" where
  "json_quote s = [0x22] @ quote_units s @ [0x22]"

text \<open>
  \<open>JSON.stringify(v)\<close> without replacer or indentation; \<open>None\<close> is the result
  \<open>undefined\<close>. An \<open>undefined\<close> element of an array prints as \<open>null\<close>, an \<open>undefined\<close>
  member of an object is left out.
\<close>

fun JSON_stringify :: "jsval \<Rightarrow> jstring option" where
  "JSON_stringify JUndefined = None"
| "JSON_stringify JNull = Some (S ''null'')"
| "JSON_stringify (JBool b) = Some (if b then S ''true'' else S ''false'')"
| "JSON_stringify (JNum m e) = Some (number_to_string m e)"
| "JSON_stringify JNegZero = Some (S ''0'')"
| "JSON_stringify (JStr s) = Some (json_quote s)"
| "JSON_stringify (JArr vs) =
     Some (S ''['' @
           join (S '','')
             (map (\<lambda>v. case JSON_stringify v of None \<Rightarrow> S ''null'' | Some t \<Rightarrow> t) vs)
           @ S '']'')"
| "JSON_stringify (JObj ps) =
     Some (S ''{'' @
           join (S '','')
             (concat (map (\<lambda>(k, v). case JSON_stringify v of
                                        None \<Rightarrow> []
                                      | Some t \<Rightarrow> [json_quote k @ S '':'' @ t]) ps))
           @ S ''}'')"

text \<open>
  \<open>ToString\<close>, as a template literal, \<open>encodeURIComponent\<close> and a property access apply
  it. A primitive value always has a string. An array is converted by
  \<open>Array.prototype.join\<close>, which converts the elements in turn (nothing for \<open>undefined\<close>
  and \<open>null\<close>). A plain object is converted by the \<open>toString\<close> it finds: the one of
  \<open>Object.prototype\<close> gives \<open>[object Object]\<close>, but an own property \<open>toString\<close> hides it,
  and as no value of \<open>jsval\<close> is callable (and \<open>valueOf\<close> gives no primitive either) the
  conversion then throws a \<open>TypeError\<close>.
\<close>

fun ToString :: "jsval \<Rightarrow> error + jstring"
  and ToString_elements :: "jsval list \<Rightarrow> error + jstring list"
where
  "ToString JUndefined = Inr (S ''undefined'')"
| "ToString JNull = Inr (S ''null'')"
| "ToString (JBool b) = Inr (if b then S ''true'' else S ''false'')"
| "ToString (JNum m e) = Inr (number_to_string m e)"
| "ToString JNegZero = Inr (S ''0'')"
| "ToString (JStr s) = Inr s"
| "ToString (JArr vs) =
     (case ToString_elements vs of
        Inl e \<Rightarrow> Inl e
      | Inr ts \<Rightarrow> Inr (join (S '','') ts))"
| "ToString (JObj ps) =
     (if S ''toString'' \<in> fst ` set ps then Inl TypeError else Inr (S ''[object Object]''))"
| "ToString_elements [] = Inr []"
| "ToString_elements (v # vs) =
     (case (if v = JUndefined \<or> v = JNull then Inr [] else ToString v) of
        Inl e \<Rightarrow> Inl e
      | Inr t \<Rightarrow>
          (case ToString_elements vs of
             Inl e \<Rightarrow> Inl e
           | Inr ts \<Rightarrow> Inr (t # ts)))"

fun typeof :: "jsval \<Rightarrow> string" where
  "typeof JUndefined = ''undefined''"
| "typeof JNull = ''object''"
| "typeof (JBool b) = ''boolean''"
| "typeof (JNum m e) = ''number''"
| "typeof JNegZero = ''number''"
| "typeof (JStr s) = ''string''"
| "typeof (JArr vs) = ''object''"
| "typeof (JObj ps) = ''object''"

section \<open>QueryCodec: queryParam and params2query\<close>

text \<open>
  \<^verbatim>\<open>
  export function queryParam(p, source = location.href) {
    const queryString = source.split('?')[1] || '';
    const params = {};
    queryString.split('&').forEach(kv => {
      if (!kv) return;
      const [key, value] = kv.split('=');
      try {
        params[key] = JSON.parse(decodeURIComponent(value));
      } catch {
        params[key] = decodeURIComponent(value);
      }
    });
    return p ? params[p] : params;
  }
  \<close>
  \<open>source\<close> is always passed (a caller that omits it passes \<open>location.href\<close>); \<open>p\<close> is
  \<open>None\<close> when omitted.
\<close>

subsection \<open>The object \<open>params\<close>\<close>

text \<open>
  The object \<open>params\<close> is its own properties and its prototype. It starts as \<open>{}\<close>, with
  no property and the prototype \<open>Object.prototype\<close>. An assignment \<open>params[key] = v\<close>
  replaces the value of an own property in place, and otherwise appends the property,
  for every key but one: \<open>Object.prototype\<close> has the accessor \<open>__proto__\<close>, so while
  \<open>params\<close> has no own property of that name and inherits the accessor, the assignment
  runs its setter and creates no property. The setter makes an object or array \<open>v\<close> the
  prototype of \<open>params\<close>, removes the prototype for \<open>null\<close>, and does nothing for any other
  value. The accessor is inherited through \<open>Object.prototype\<close> itself and through a parsed
  object or array that has become the prototype, unless that object has an own property
  \<open>__proto__\<close> (\<open>JSON.parse\<close> creates one for such a member), which hides the accessor;
  an object without prototype inherits nothing.
\<close>

datatype proto = ObjectPrototype | NullPrototype | ValuePrototype jsval

record object =
  properties :: "(jstring \<times> jsval) list"
  prototype :: proto

definition inherits_setter :: "proto \<Rightarrow> bool" where
  "inherits_setter p =
     (case p of
        ObjectPrototype \<Rightarrow> True
      | NullPrototype \<Rightarrow> False
      | ValuePrototype v \<Rightarrow>
          (case v of JObj ps \<Rightarrow> S ''__proto__'' \<notin> fst ` set ps | _ \<Rightarrow> True))"

definition proto_setter :: "jsval \<Rightarrow> object \<Rightarrow> object" where
  "proto_setter v obj =
     (case v of
        JObj ps \<Rightarrow> obj\<lparr>prototype := ValuePrototype v\<rparr>
      | JArr vs \<Rightarrow> obj\<lparr>prototype := ValuePrototype v\<rparr>
      | JNull \<Rightarrow> obj\<lparr>prototype := NullPrototype\<rparr>
      | _ \<Rightarrow> obj)"

definition set_property :: "jstring \<Rightarrow> jsval \<Rightarrow> object \<Rightarrow> object" where
  "set_property k v obj =
     (if k = S ''__proto__'' \<and> k \<notin> fst ` set (properties obj)
         \<and> inherits_setter (prototype obj)
      then proto_setter v obj
      else obj\<lparr>properties := AList.update k v (properties obj)\<rparr>)"

text \<open>\<open>params[key] = v\<close>: the key is converted to a string first.\<close>

definition assign :: "jsval \<Rightarrow> jsval \<Rightarrow> object \<Rightarrow> error + object" where
  "assign key v obj =
     (case ToString key of
        Inl e \<Rightarrow> Inl e
      | Inr k \<Rightarrow> Inr (set_property k v obj))"

subsection \<open>The functions\<close>

text \<open>Array destructuring: the element at an index, \<open>undefined\<close> past the end.\<close>

definition element :: "jstring list \<Rightarrow> nat \<Rightarrow> jsval" where
  "element xs i = (if i < length xs then JStr (xs ! i) else JUndefined)"

text \<open>\<open>decodeURIComponent(value)\<close>: the argument is converted to a string first.\<close>

definition decodeURIComponent_of :: "jsval \<Rightarrow> error + jstring" where
  "decodeURIComponent_of v =
     (case ToString v of
        Inl e \<Rightarrow> Inl e
      | Inr t \<Rightarrow> decodeURIComponent t)"

text \<open>The \<open>try\<close> block's right-hand side: \<open>JSON.parse(decodeURIComponent(value))\<close>.\<close>

definition parse_decoded :: "jsval \<Rightarrow> error + jsval" where
  "parse_decoded v =
     (case decodeURIComponent_of v of
        Inl e \<Rightarrow> Inl e
      | Inr d \<Rightarrow> JSON_parse d)"

text \<open>
  The body of the \<open>forEach\<close> callback, from the object before to the object after: the
  \<open>try\<close> block, and the \<open>catch\<close> block when the \<open>try\<close> block has thrown.
\<close>

definition queryParam_pair :: "object \<Rightarrow> jstring \<Rightarrow> error + object" where
  "queryParam_pair params kv =
     (if kv = [] then Inr params
      else
        let parts = split 0x3D kv;
            key = element parts 0;
            v = element parts 1
        in case (case parse_decoded v of
                   Inl e \<Rightarrow> Inl e
                 | Inr x \<Rightarrow> assign key x params) of
             Inr params' \<Rightarrow> Inr params'
           | Inl _ \<Rightarrow>
               (case decodeURIComponent_of v of
                  Inl e \<Rightarrow> Inl e
                | Inr d \<Rightarrow> assign key (JStr d) params))"

text \<open>\<open>forEach\<close> with a callback that may throw: the first exception ends the loop.\<close>

fun forEach :: "('s \<Rightarrow> 'a \<Rightarrow> error + 's) \<Rightarrow> 'a list \<Rightarrow> 's \<Rightarrow> error + 's" where
  "forEach f [] s = Inr s"
| "forEach f (x # xs) s = (case f s x of Inl e \<Rightarrow> Inl e | Inr s' \<Rightarrow> forEach f xs s')"

definition query_string :: "jstring \<Rightarrow> jstring" where
  "query_string source =
     (case element (split 0x3F source) 1 of JStr q \<Rightarrow> q | _ \<Rightarrow> [])"

definition get_property :: "(jstring \<times> jsval) list \<Rightarrow> jstring \<Rightarrow> jsval" where
  "get_property params k = (case map_of params k of None \<Rightarrow> JUndefined | Some v \<Rightarrow> v)"

text \<open>
  The result is a value of \<open>jsval\<close>: the returned object is given by its own properties,
  and \<open>params[p]\<close> is looked up among the own properties (what \<open>params\<close> would inherit for
  the name \<open>p\<close> is not a value of the embedding).
\<close>

definition queryParam :: "jstring option \<Rightarrow> jstring \<Rightarrow> error + jsval" where
  "queryParam p source =
     (case forEach queryParam_pair (split 0x26 (query_string source))
             \<lparr>properties = [], prototype = ObjectPrototype\<rparr> of
        Inl e \<Rightarrow> Inl e
      | Inr params \<Rightarrow>
          (case p of
             None \<Rightarrow> Inr (JObj (properties params))
           | Some k \<Rightarrow>
               if k = [] then Inr (JObj (properties params))
               else Inr (get_property (properties params) k)))"

text \<open>
  \<^verbatim>\<open>
  export function params2query(p) {
    return Object.entries(p)
      .map(([k, v]) => `${k}=${encodeURIComponent(typeof v === 'object' ? JSON.stringify(v) : v)}`)
      .join('&');
  }
  \<close>
  The argument is the object given by its entries, in the order of \<open>Object.entries\<close>.
  The argument of \<open>encodeURIComponent\<close> is the text of \<open>JSON.stringify\<close> for \<open>null\<close>, an
  array and an object, and a primitive value otherwise, whose string conversion never
  throws.
\<close>

fun map_throwing :: "('a \<Rightarrow> error + 'b) \<Rightarrow> 'a list \<Rightarrow> error + 'b list" where
  "map_throwing f [] = Inr []"
| "map_throwing f (x # xs) =
     (case f x of
        Inl e \<Rightarrow> Inl e
      | Inr y \<Rightarrow> (case map_throwing f xs of Inl e \<Rightarrow> Inl e | Inr ys \<Rightarrow> Inr (y # ys)))"

definition value_text :: "jsval \<Rightarrow> jstring" where
  "value_text v =
     (if typeof v = ''object''
      then (case JSON_stringify v of None \<Rightarrow> S ''undefined'' | Some t \<Rightarrow> t)
      else projr (ToString v))"

definition params2query_pair :: "jstring \<times> jsval \<Rightarrow> error + jstring" where
  "params2query_pair kv =
     (case encodeURIComponent (value_text (snd kv)) of
        Inl e \<Rightarrow> Inl e
      | Inr t \<Rightarrow> Inr (fst kv @ S ''='' @ t))"

definition params2query :: "(jstring \<times> jsval) list \<Rightarrow> error + jstring" where
  "params2query p =
     (case map_throwing params2query_pair p of
        Inl e \<Rightarrow> Inl e
      | Inr pairs \<Rightarrow> Inr (join (S ''&'') pairs))"

subsection \<open>The key and the decoded value of one pair\<close>

text \<open>
  The sub-expressions of the callback, named: the key and the value that the destructuring
  \<open>[key, value] = kv.split('=')\<close> binds (the key is the first piece of the split, which
  always has one; the value is the second piece, or \<open>undefined\<close>), and what the
  \<open>try\<close>/\<open>catch\<close> assigns.
\<close>

definition pair_key :: "jstring \<Rightarrow> jstring" where
  "pair_key kv = hd (split 0x3D kv)"

definition pair_value :: "jstring \<Rightarrow> jsval" where
  "pair_value kv = element (split 0x3D kv) 1"

definition decoded_value :: "jsval \<Rightarrow> error + jsval" where
  "decoded_value v =
     (case parse_decoded v of
        Inr x \<Rightarrow> Inr x
      | Inl _ \<Rightarrow>
          (case decodeURIComponent_of v of
             Inl e \<Rightarrow> Inl e
           | Inr d \<Rightarrow> Inr (JStr d)))"

definition own_keys :: "jsval \<Rightarrow> jstring set" where
  "own_keys v = (case v of JObj ps \<Rightarrow> fst ` set ps | _ \<Rightarrow> {})"

subsection \<open>Values that survive the round trip\<close>

text \<open>
  A JSON value: no \<open>undefined\<close> anywhere (an array would print it as \<open>null\<close>, an object
  would drop the member), no negative zero (it prints as \<open>0\<close>), numbers in normal form,
  objects without a repeated key.
\<close>

fun json_value :: "jsval \<Rightarrow> bool" where
  "json_value JUndefined = False"
| "json_value JNull = True"
| "json_value (JBool b) = True"
| "json_value (JNum m e) = ((m = 0 \<and> e = 0) \<or> m mod 10 \<noteq> 0)"
| "json_value JNegZero = False"
| "json_value (JStr s) = True"
| "json_value (JArr vs) = list_all json_value vs"
| "json_value (JObj ps) = (distinct (map fst ps) \<and> list_all (\<lambda>p. json_value (snd p)) ps)"

text \<open>
  A value of a mapping that \<open>params2query\<close> can serialise: a JSON value, and a string
  value is well-formed UTF-16 (it has no surrogate without its partner), since
  \<open>encodeURIComponent\<close> throws on any other string.
\<close>

definition well_formed :: "jstring \<Rightarrow> bool" where
  "well_formed s \<longleftrightarrow> code_points s \<noteq> None"

fun query_value :: "jsval \<Rightarrow> bool" where
  "query_value (JStr s) = well_formed s"
| "query_value v = json_value v"

text \<open>
  A key that the query string can carry and \<open>queryParam\<close> stores: it holds none of \<open>?\<close>,
  \<open>&\<close> and \<open>=\<close>, and it is not \<open>__proto__\<close>.
\<close>

definition plain_key :: "jstring \<Rightarrow> bool" where
  "plain_key k \<longleftrightarrow>
     0x3F \<notin> set k \<and> 0x26 \<notin> set k \<and> 0x3D \<notin> set k \<and> k \<noteq> S ''__proto__''"

text \<open>
  What a value reads back as: a string that is JSON text comes back as the value it
  denotes, every other value as itself.
\<close>

definition read_back :: "jsval \<Rightarrow> jsval" where
  "read_back v =
     (case v of
        JStr s \<Rightarrow> (case JSON_parse s of Inr x \<Rightarrow> x | Inl e \<Rightarrow> JStr s)
      | _ \<Rightarrow> v)"

subsection \<open>Notions for the proofs\<close>

text \<open>The Unicode scalar values, and the tokens that the escapes of one code point decode to.\<close>

definition valid_cp :: "nat \<Rightarrow> bool" where
  "valid_cp cp \<longleftrightarrow> cp < 0x110000 \<and> \<not> (0xD800 \<le> cp \<and> cp \<le> 0xDFFF)"

definition cp_tokens :: "nat \<Rightarrow> uri_token list" where
  "cp_tokens cp =
     (if cp < 0x80 \<and> uri_unreserved (of_nat cp) then [Lit (of_nat cp)]
      else map Octet (utf8_encode cp))"

text \<open>What may follow a value inside a JSON text: nothing, a comma or a closing bracket.\<close>

definition delimited :: "jstring \<Rightarrow> bool" where
  "delimited r \<longleftrightarrow> (case r of [] \<Rightarrow> True | c # _ \<Rightarrow> c = 0x2C \<or> c = 0x5D \<or> c = 0x7D)"

text \<open>The digits of \<open>Number::toString\<close> without the sign, and how a number text splits.\<close>

definition number_body :: "jstring \<Rightarrow> int \<Rightarrow> jstring" where
  "number_body s e =
     (let k = int (length s); n = k + e
      in if k \<le> n \<and> n \<le> 21 then s @ replicate (nat (n - k)) 0x30
         else if 0 < n \<and> n \<le> 21 then take (nat n) s @ S ''.'' @ drop (nat n) s
         else if - 6 < n \<and> n \<le> 0 then S ''0.'' @ replicate (nat (- n)) 0x30 @ s
         else
           (if k = 1 then s else take 1 s @ S ''.'' @ drop 1 s)
           @ S ''e'' @ (if n - 1 < 0 then S ''-'' else S ''+'')
           @ digits_of_nat (nat \<bar>n - 1\<bar>))"

definition number_parts ::
  "jstring \<Rightarrow> jstring \<Rightarrow> nat \<Rightarrow> int \<Rightarrow> jstring \<Rightarrow> bool" where
  "number_parts body rest a e ip \<longleftrightarrow>
     (\<exists>r1 fp r2 ex.
        body @ rest = ip @ r1 \<and> (\<forall>c\<in>set ip. is_digit c) \<and> ip \<noteq> []
        \<and> (length ip = 1 \<or> hd ip \<noteq> 0x30) \<and> (r1 = [] \<or> \<not> is_digit (hd r1))
        \<and> json_fraction r1 = Some (fp, r2) \<and> json_exponent r2 = Some (ex, rest)
        \<and> nat_of_digits 0 (ip @ fp) \<noteq> 0
        \<and> strip_zeros (nat_of_digits 0 (ip @ fp)) (ex - int (length fp)) = (a, e))"

text \<open>The text of a value inside an array: \<open>null\<close> for \<open>undefined\<close>.\<close>

definition jtext :: "jsval \<Rightarrow> jstring" where
  "jtext v = (case JSON_stringify v of None \<Rightarrow> S ''null'' | Some t \<Rightarrow> t)"

text \<open>The text of a member of an object, and the first character of the text of a value.\<close>

definition member_text :: "jstring \<times> jsval \<Rightarrow> jstring" where
  "member_text p = json_quote (fst p) @ S '':'' @ jtext (snd p)"

definition value_start :: "16 word \<Rightarrow> bool" where
  "value_start c \<longleftrightarrow>
     c = 0x5B \<or> c = 0x7B \<or> c = 0x22 \<or> c = 0x74 \<or> c = 0x66 \<or> c = 0x6E \<or> c = 0x2D
     \<or> is_digit c"

text \<open>
  A pair of the query string that carries an entry of the mapping: it is not empty, it
  holds neither \<open>&\<close> nor \<open>?\<close>, its key is the entry's and is not \<open>__proto__\<close>, and its
  value decodes to what the entry's value reads back as.
\<close>

definition carries :: "jstring \<times> jsval \<Rightarrow> jstring \<Rightarrow> bool" where
  "carries p kv \<longleftrightarrow>
     kv \<noteq> [] \<and> 0x26 \<notin> set kv \<and> 0x3F \<notin> set kv \<and> pair_key kv = fst p
     \<and> fst p \<noteq> S ''__proto__''
     \<and> decoded_value (pair_value kv) = Inr (read_back (snd p))"

text \<open>A value whose text, followed by a delimiter, is read back as the value.\<close>

definition parses :: "jsval \<Rightarrow> bool" where
  "parses v \<longleftrightarrow>
     (\<forall>n rest. 2 * length (jtext v) < n \<longrightarrow> delimited rest \<longrightarrow>
        parse_value n (jtext v @ rest) = Ok v rest)"

section \<open>NodeListNormalizer: arrayOfNodesWith\<close>

text \<open>
  \<^verbatim>\<open>
  export function arrayOfNodesWith(what) {
    if (what?.jquery) { return what.toArray(); }
    if (Array.isArray(what)) { return what.flatMap(item => arrayOfNodesWith(item)); }
    if (what instanceof Node) { return [what]; }
    if (what instanceof NodeList || what instanceof HTMLCollection) { return Array.from(what); }
    if (typeof what === 'string') { return Array.from(document.querySelectorAll(what)); }
    throw new Error(`arrayOfNodesWith: ... ${what}`);
  }
  \<close>
  The argument is any value; the datatype lists the runtime shapes the function tells
  apart: the primitive values and the plain objects of \<open>jsval\<close>, a jQuery object (its
  \<open>jquery\<close> property is truthy and \<open>toArray()\<close> gives its nodes), an array of such values,
  a DOM node, a \<open>NodeList\<close> and an \<open>HTMLCollection\<close>. Every other value (a symbol, a
  function, a BigInt, \<open>NaN\<close>, an object of another class or without prototype, with no
  truthy \<open>jquery\<close>) is \<open>WOther\<close>: the function uses nothing of it but its string
  conversion, which is a string or the exception that the conversion throws (a
  \<open>TypeError\<close> for a symbol and for an object without prototype). A DOM node is known by
  its identity, a number. The document is the function \<open>qsa\<close>, the result of
  \<open>document.querySelectorAll\<close> for each selector (it throws on a selector it cannot
  parse).
\<close>

type_synonym node = nat

datatype what =
    WUndefined
  | WNull
  | WBoolean bool
  | WNumber int int
  | WNegZero
  | WString jstring
  | WObject "(jstring \<times> jsval) list"
  | WOther "error + jstring"
  | WJQuery "node list"
  | WArray "what list"
  | WNode node
  | WNodeList "node list"
  | WHTMLCollection "node list"

fun truthy :: "jsval \<Rightarrow> bool" where
  "truthy JUndefined = False"
| "truthy JNull = False"
| "truthy (JBool b) = b"
| "truthy (JNum m e) = (m \<noteq> 0)"
| "truthy JNegZero = False"
| "truthy (JStr s) = (s \<noteq> [])"
| "truthy (JArr vs) = True"
| "truthy (JObj ps) = True"

text \<open>
  The \<open>throw\<close> statement evaluates the template literal first: the fixed text, then the
  string conversion of the argument. If the conversion throws, that exception is what
  the function throws; otherwise it throws an \<open>Error\<close> with the text as its message, and
  with nothing else of the argument.
\<close>

definition unsupported_prefix :: jstring where
  "unsupported_prefix =
     S ''arrayOfNodesWith: '' @
     [0x041D, 0x0435, 0x043F, 0x043E, 0x0434, 0x0434, 0x0435, 0x0440, 0x0436, 0x0438, 0x0432,
      0x0430, 0x0435, 0x043C, 0x044B, 0x0439, 0x0020, 0x0442, 0x0438, 0x043F, 0x0020, 0x043F,
      0x0430, 0x0440, 0x0430, 0x043C, 0x0435, 0x0442, 0x0440, 0x0430, 0x003A, 0x0020]"

definition unsupported :: "error + jstring \<Rightarrow> error" where
  "unsupported r = (case r of Inl e \<Rightarrow> e | Inr t \<Rightarrow> Error (unsupported_prefix @ t))"

text \<open>
  A plain object with a truthy \<open>jquery\<close> property takes the first branch, where the call
  of \<open>toArray\<close> throws a \<open>TypeError\<close>: no value of \<open>jsval\<close> is callable.
\<close>

fun arrayOfNodesWith :: "(jstring \<Rightarrow> error + node list) \<Rightarrow> what \<Rightarrow> error + node list"
  and flatMap_arrayOfNodesWith ::
    "(jstring \<Rightarrow> error + node list) \<Rightarrow> what list \<Rightarrow> error + node list"
where
  "arrayOfNodesWith qsa (WJQuery ns) = Inr ns"
| "arrayOfNodesWith qsa (WObject ps) =
     (if truthy (get_property ps (S ''jquery'')) then Inl TypeError
      else Inl (unsupported (ToString (JObj ps))))"
| "arrayOfNodesWith qsa (WArray ws) = flatMap_arrayOfNodesWith qsa ws"
| "arrayOfNodesWith qsa (WNode n) = Inr [n]"
| "arrayOfNodesWith qsa (WNodeList ns) = Inr ns"
| "arrayOfNodesWith qsa (WHTMLCollection ns) = Inr ns"
| "arrayOfNodesWith qsa (WString s) = qsa s"
| "arrayOfNodesWith qsa WUndefined = Inl (unsupported (ToString JUndefined))"
| "arrayOfNodesWith qsa WNull = Inl (unsupported (ToString JNull))"
| "arrayOfNodesWith qsa (WBoolean b) = Inl (unsupported (ToString (JBool b)))"
| "arrayOfNodesWith qsa (WNumber m e) = Inl (unsupported (ToString (JNum m e)))"
| "arrayOfNodesWith qsa WNegZero = Inl (unsupported (ToString JNegZero))"
| "arrayOfNodesWith qsa (WOther r) = Inl (unsupported r)"
| "flatMap_arrayOfNodesWith qsa [] = Inr []"
| "flatMap_arrayOfNodesWith qsa (w # ws) =
     (case arrayOfNodesWith qsa w of
        Inl e \<Rightarrow> Inl e
      | Inr ns \<Rightarrow>
          (case flatMap_arrayOfNodesWith qsa ws of
             Inl e \<Rightarrow> Inl e
           | Inr ms \<Rightarrow> Inr (ns @ ms)))"

text \<open>
  The tests of the function, as predicates of the argument: \<open>what?.jquery\<close> is truthy,
  \<open>Array.isArray(what)\<close>, the three \<open>instanceof\<close> tests and \<open>typeof what === 'string'\<close>.
\<close>

definition jquery_like :: "what \<Rightarrow> bool" where
  "jquery_like w =
     (case w of
        WJQuery ns \<Rightarrow> True
      | WObject ps \<Rightarrow> truthy (get_property ps (S ''jquery''))
      | _ \<Rightarrow> False)"

definition isArray :: "what \<Rightarrow> bool" where
  "isArray w = (case w of WArray ws \<Rightarrow> True | _ \<Rightarrow> False)"

definition instanceof_Node :: "what \<Rightarrow> bool" where
  "instanceof_Node w = (case w of WNode n \<Rightarrow> True | _ \<Rightarrow> False)"

definition instanceof_NodeList :: "what \<Rightarrow> bool" where
  "instanceof_NodeList w = (case w of WNodeList ns \<Rightarrow> True | _ \<Rightarrow> False)"

definition instanceof_HTMLCollection :: "what \<Rightarrow> bool" where
  "instanceof_HTMLCollection w = (case w of WHTMLCollection ns \<Rightarrow> True | _ \<Rightarrow> False)"

definition is_string :: "what \<Rightarrow> bool" where
  "is_string w = (case w of WString s \<Rightarrow> True | _ \<Rightarrow> False)"

text \<open>
  The string conversion of an argument that passes none of the tests; \<open>None\<close> for an
  argument of a supported shape, which the function never converts.
\<close>

definition string_conversion :: "what \<Rightarrow> (error + jstring) option" where
  "string_conversion w =
     (case w of
        WUndefined \<Rightarrow> Some (ToString JUndefined)
      | WNull \<Rightarrow> Some (ToString JNull)
      | WBoolean b \<Rightarrow> Some (ToString (JBool b))
      | WNumber m e \<Rightarrow> Some (ToString (JNum m e))
      | WNegZero \<Rightarrow> Some (ToString JNegZero)
      | WObject ps \<Rightarrow> Some (ToString (JObj ps))
      | WOther r \<Rightarrow> Some r
      | _ \<Rightarrow> None)"

section \<open>VisibilityObserverFactory: watchIntersection\<close>

text \<open>
  \<^verbatim>\<open>
  export function watchIntersection(targets, options, yesHandler, noHandler) {
    const io = new IntersectionObserver((entries, observer) => {
      entries.forEach(entry => {
        entry.isIntersecting
          ? yesHandler?.call(this, entry.target, observer)
          : noHandler?.call(this, entry.target, observer);
      });
    }, {threshold: 1, ...options});
    arrayOfNodesWith(targets).forEach(node => io.observe(node));
    return io;
  }
  \<close>
  An observer is the options object it was constructed with and the nodes it observes.
  A handler acts on a state of the caller's and may throw; an absent handler is \<open>None\<close>.
  The observer handle that the handlers also receive is the observer itself and is not
  passed in the embedding.
\<close>

record entry =
  target :: node
  isIntersecting :: bool

record observer =
  init :: "(jstring \<times> jsval) list"
  observed :: "node list"

text \<open>
  \<open>{...base, ...options}\<close>: the properties of \<open>options\<close> are copied in order over those of
  the literal; spreading \<open>undefined\<close> copies nothing.
\<close>

definition spread ::
  "(jstring \<times> jsval) list \<Rightarrow> (jstring \<times> jsval) list option \<Rightarrow> (jstring \<times> jsval) list" where
  "spread base options =
     (case options of
        None \<Rightarrow> base
      | Some ps \<Rightarrow> fold (\<lambda>kv. AList.update (fst kv) (snd kv)) ps base)"

definition observe :: "node \<Rightarrow> observer \<Rightarrow> observer" where
  "observe n io = (if n \<in> set (observed io) then io else io\<lparr>observed := observed io @ [n]\<rparr>)"

type_synonym 's handler = "node \<Rightarrow> 's \<Rightarrow> error + 's"

definition optional_call :: "'s handler option \<Rightarrow> node \<Rightarrow> 's \<Rightarrow> error + 's" where
  "optional_call h n s = (case h of None \<Rightarrow> Inr s | Some f \<Rightarrow> f n s)"

definition watchIntersection_callback ::
  "'s handler option \<Rightarrow> 's handler option \<Rightarrow> entry list \<Rightarrow> 's \<Rightarrow> error + 's" where
  "watchIntersection_callback yesHandler noHandler entries s =
     forEach (\<lambda>s entry.
                if isIntersecting entry then optional_call yesHandler (target entry) s
                else optional_call noHandler (target entry) s)
       entries s"

definition watchIntersection ::
  "(jstring \<Rightarrow> error + node list) \<Rightarrow> what \<Rightarrow> (jstring \<times> jsval) list option
   \<Rightarrow> error + observer" where
  "watchIntersection qsa targets options =
     (let io = \<lparr>init = spread [(S ''threshold'', JNum 1 0)] options, observed = []\<rparr>
      in case arrayOfNodesWith qsa targets of
           Inl e \<Rightarrow> Inl e
         | Inr nodes \<Rightarrow> Inr (fold observe nodes io))"

section \<open>ScriptLoader: preloadScript\<close>

text \<open>
  \<^verbatim>\<open>
  export async function preloadScript(url, cb) {
    return new Promise(resolve => {
      const scriptEl = document.createElement('script');
      scriptEl.src = url;
      scriptEl.addEventListener('load', () => {
        scriptEl.remove();
        cb?.();
        resolve();
      });
      document.head.append(scriptEl);
    });
  }
  \<close>
  The page is the children of \<open>document.head\<close>, the number of elements created so far (the
  identity of the next one), the observers constructed, the caller's state that a callback
  acts on, and the trace of what the load listener did, in order. One call of
  \<open>preloadScript\<close> is the script element, its source, the callback and the state of the
  promise. The only listener on the element is the one for \<open>load\<close>; any other event at
  the element, such as \<open>error\<close>, finds no listener. A callback sees the document (the
  children of \<open>document.head\<close>) and acts on the caller's state; it returns normally or
  throws, and what it did to the state before it threw stays done.
\<close>

datatype effect = ScriptRemoved node | CallbackInvoked | PromiseResolved

record 'u page =
  head :: "node list"
  elements :: nat
  observers :: "observer list"
  user :: 'u
  trace :: "effect list"

datatype promise = Pending | Fulfilled

record 'u script_load =
  scriptEl :: node
  src :: jstring
  cb :: "(node list \<Rightarrow> 'u \<Rightarrow> 'u \<times> error option) option"
  signal :: promise

datatype event = LoadEvent | ErrorEvent | OtherEvent jstring

definition preloadScript ::
  "jstring \<Rightarrow> (node list \<Rightarrow> 'u \<Rightarrow> 'u \<times> error option) option \<Rightarrow> 'u page
   \<Rightarrow> 'u script_load \<times> 'u page" where
  "preloadScript url callback pg =
     (let el = elements pg
      in (\<lparr>scriptEl = el, src = url, cb = callback, signal = Pending\<rparr>,
          pg\<lparr>elements := Suc el, head := head pg @ [el]\<rparr>))"

text \<open>
  The load listener: remove the element, call the callback if there is one, resolve. A
  callback that throws ends the listener before \<open>resolve()\<close>; the exception of a listener
  is reported by the platform and goes no further.
\<close>

definition load_listener :: "'u script_load \<Rightarrow> 'u page \<Rightarrow> 'u script_load \<times> 'u page" where
  "load_listener ld pg =
     (let pg1 = pg\<lparr>head := removeAll (scriptEl ld) (head pg),
                    trace := trace pg @ [ScriptRemoved (scriptEl ld)]\<rparr>
      in case cb ld of
           None \<Rightarrow> (ld\<lparr>signal := Fulfilled\<rparr>, pg1\<lparr>trace := trace pg1 @ [PromiseResolved]\<rparr>)
         | Some f \<Rightarrow>
             (case f (head pg1) (user pg1) of
                (u, Some e) \<Rightarrow> (ld, pg1\<lparr>user := u, trace := trace pg1 @ [CallbackInvoked]\<rparr>)
              | (u, None) \<Rightarrow>
                  (ld\<lparr>signal := Fulfilled\<rparr>,
                   pg1\<lparr>user := u, trace := trace pg1 @ [CallbackInvoked, PromiseResolved]\<rparr>)))"

definition dispatch :: "event \<Rightarrow> 'u script_load \<times> 'u page \<Rightarrow> 'u script_load \<times> 'u page" where
  "dispatch ev st =
     (case ev of
        LoadEvent \<Rightarrow> load_listener (fst st) (snd st)
      | ErrorEvent \<Rightarrow> st
      | OtherEvent name \<Rightarrow> st)"

section \<open>VimeoAutoplayController: vimeoAutoPlay\<close>

text \<open>
  \<^verbatim>\<open>
  export async function vimeoAutoPlay(observerOptions = {}) {
    const vboxes = document.querySelectorAll('.vimeo-video-box [data-vimeo-vid]');
    if (!vboxes.length) return;
    await preloadScript('https://player.vimeo.com/api/player.js');
    const io = new IntersectionObserver((entries) => { ... }, {threshold: 0.33, ...observerOptions});
    vboxes.forEach(box => io.observe(box));
  }
  \<close>
  The asynchronous function runs up to its \<open>await\<close>: it has completed, it has thrown, or
  it waits for the script with the boxes it found. \<open>vimeoAutoPlay_resume\<close> is the rest of
  the body, run when the awaited promise is fulfilled.
\<close>

datatype 'a async = Completed | Rejected error | Awaiting 'a

definition vimeoAutoPlay ::
  "(jstring \<Rightarrow> error + node list) \<Rightarrow> (jstring \<times> jsval) list \<Rightarrow> 'u page
   \<Rightarrow> ('u script_load \<times> node list) async \<times> 'u page" where
  "vimeoAutoPlay qsa observerOptions pg =
     (case qsa (S ''.vimeo-video-box [data-vimeo-vid]'') of
        Inl e \<Rightarrow> (Rejected e, pg)
      | Inr vboxes \<Rightarrow>
          if length vboxes = 0 then (Completed, pg)
          else
            (case preloadScript (S ''https://player.vimeo.com/api/player.js'') None pg of
               (ld, pg') \<Rightarrow> (Awaiting (ld, vboxes), pg')))"

definition vimeoAutoPlay_resume ::
  "(jstring \<times> jsval) list \<Rightarrow> node list \<Rightarrow> 'u page \<Rightarrow> 'u page" where
  "vimeoAutoPlay_resume observerOptions vboxes pg =
     (let io = \<lparr>init = spread [(S ''threshold'', JNum 33 (- 2))] (Some observerOptions),
                observed = []\<rparr>
      in pg\<lparr>observers := observers pg @ [fold observe vboxes io]\<rparr>)"

text \<open>
  The observer's callback: an element that comes into view gets a player on its first
  entry and is played; one that leaves is paused if it has a player.
\<close>

datatype player_command = NewPlayer node | Play node | Pause node

record vimeo =
  players :: "node list"
  commands :: "player_command list"

definition vimeo_entry :: "entry \<Rightarrow> vimeo \<Rightarrow> vimeo" where
  "vimeo_entry e v =
     (if isIntersecting e then
        (let v1 = (if target e \<in> set (players v) then v
                   else v\<lparr>players := players v @ [target e],
                          commands := commands v @ [NewPlayer (target e)]\<rparr>)
         in v1\<lparr>commands := commands v1 @ [Play (target e)]\<rparr>)
      else if target e \<in> set (players v) then v\<lparr>commands := commands v @ [Pause (target e)]\<rparr>
      else v)"

definition vimeo_callback :: "entry list \<Rightarrow> vimeo \<Rightarrow> vimeo" where
  "vimeo_callback entries v = fold vimeo_entry entries v"

section \<open>Round trips of the platform functions\<close>

subsection \<open>The fuel of JSON.parse\<close>

text \<open>
  Every parser consumes input, so the fuel that \<open>JSON_parse\<close> gives is never used up:
  a text is rejected only for its syntax.
\<close>

lemma length_skip_ws: "length (skip_ws cs) \<le> length cs"
  by (simp add: skip_ws_def length_dropWhile_le)

lemma skip_ws_Cons: "skip_ws cs = c # r \<Longrightarrow> length r < length cs"
  using length_skip_ws[of cs] by simp

lemma json_string_shorter: "json_string r = Some (s, r') \<Longrightarrow> length r' < length r"
proof (induction r arbitrary: s r' rule: json_string.induct)
  case 1
  then show ?case by simp
next
  case (2 c cs)
  show ?case
  proof (cases "c = 0x22")
    case True
    with "2.prems" show ?thesis by simp
  next
    case nq: False
    show ?thesis
    proof (cases "c = 0x5C")
      case True
      with nq "2.prems" obtain e r where cs: "cs = e # r"
        by (cases cs) auto
      show ?thesis
      proof (cases "e = 0x75")
        case u: True
        with nq True cs "2.prems" obtain h1 h2 h3 h4 r1 x where r: "r = h1 # h2 # h3 # h4 # r1"
          and x: "hex4 h1 h2 h3 h4 = Some x"
          by (auto split: list.splits option.splits)
        with nq True cs u "2.prems" obtain s1 where s1: "json_string r1 = Some (s1, r')"
          by (auto split: option.splits)
        have "length r' < length r1"
          using "2.IH"(1)[of e r h1 "h2 # h3 # h4 # r1" h2 "h3 # h4 # r1" h3 "h4 # r1" h4 r1 x s1 r']
            nq True cs u r x s1
          by simp
        then show ?thesis
          by (simp add: cs r)
      next
        case nu: False
        with nq True cs "2.prems" obtain x s1 where x: "json_escape e = Some x"
          and "json_string r = Some (s1, r')"
          by (auto split: option.splits)
        from "2.IH"(2)[OF nq True cs nu x this(2)] show ?thesis
          by (simp add: cs)
      qed
    next
      case nb: False
      with nq "2.prems" have c: "\<not> c < 0x20"
        by (auto split: if_splits)
      with nq nb "2.prems" obtain s1 where "json_string cs = Some (s1, r')"
        by (auto split: option.splits)
      from "2.IH"(3)[OF nq nb c this] show ?thesis
        by simp
    qed
  qed
qed

lemma json_fraction_shorter: "json_fraction r = Some (fp, r') \<Longrightarrow> length r' \<le> length r"
  using length_dropWhile_le[of is_digit "tl r"]
  by (auto simp: json_fraction_def split: list.splits if_splits)

lemma json_exponent_shorter: "json_exponent r = Some (ex, r') \<Longrightarrow> length r' \<le> length r"
proof -
  assume a: "json_exponent r = Some (ex, r')"
  show ?thesis
  proof (cases r)
    case Nil
    with a show ?thesis by (simp add: json_exponent_def)
  next
    case (Cons c t)
    show ?thesis
    proof (cases "c = 0x65 \<or> c = 0x45")
      case False
      with a Cons show ?thesis by (auto simp: json_exponent_def)
    next
      case True
      define t' where "t' = (case t of [] \<Rightarrow> [] | d # u \<Rightarrow> if d = 0x2D \<or> d = 0x2B then u else t)"
      have "length t' \<le> length t"
        by (auto simp: t'_def split: list.splits)
      moreover from a Cons True have "r' = dropWhile is_digit t'"
        by (auto simp: json_exponent_def Let_def t'_def split: if_splits)
      ultimately show ?thesis
        using length_dropWhile_le[of is_digit t'] by (simp add: Cons)
    qed
  qed
qed

lemma json_number_shorter: "json_number cs = Some (v, r) \<Longrightarrow> length r < length cs"
proof -
  assume a: "json_number cs = Some (v, r)"
  define neg where "neg = (case cs of [] \<Rightarrow> False | c # _ \<Rightarrow> c = 0x2D)"
  define r0 where "r0 = (if neg then tl cs else cs)"
  from a have ip: "takeWhile is_digit r0 \<noteq> []"
    by (auto simp: json_number_def Let_def neg_def r0_def split: if_splits)
  from a ip obtain fp r2 ex where fr: "json_fraction (dropWhile is_digit r0) = Some (fp, r2)"
    and ex: "json_exponent r2 = Some (ex, r)"
    by (auto simp: json_number_def Let_def neg_def r0_def split: if_splits option.splits)
  have "length (takeWhile is_digit r0) + length (dropWhile is_digit r0) = length r0"
    by (metis length_append takeWhile_dropWhile_id)
  with ip have "length (dropWhile is_digit r0) < length r0"
    by (cases "takeWhile is_digit r0") auto
  moreover have "length r0 \<le> length cs"
    by (simp add: r0_def)
  ultimately show ?thesis
    using json_fraction_shorter[OF fr] json_exponent_shorter[OF ex] by linarith
qed

lemma skip_ws_Cons_le: "skip_ws cs = c # r \<Longrightarrow> length (c # r) \<le> length cs"
  using length_skip_ws[of cs] by simp

lemma parse_consumes:
  "(parse_value n cs = Ok v r \<longrightarrow> length r < length cs)
   \<and> (parse_elements n cs acc = Ok v r \<longrightarrow> length r < length cs)
   \<and> (parse_members n cs macc = Ok v r \<longrightarrow> length r < length cs)"
proof (induction n arbitrary: cs v r acc macc)
  case 0
  then show ?case by simp
next
  case (Suc n)
  have value_n: "\<And>cs v r. parse_value n cs = Ok v r \<Longrightarrow> length r < length cs"
    and elements_n: "\<And>cs acc v r. parse_elements n cs acc = Ok v r \<Longrightarrow> length r < length cs"
    and members_n: "\<And>cs macc v r. parse_members n cs macc = Ok v r \<Longrightarrow> length r < length cs"
    using Suc.IH by blast+
  have "length r < length cs" if p: "parse_value (Suc n) cs = Ok v r"
  proof -
    from p obtain c t where sk: "skip_ws cs = c # t"
      by (cases "skip_ws cs") auto
    note le = skip_ws_Cons_le[OF sk]
    consider (arr) "c = 0x5B" | (obj) "c \<noteq> 0x5B" "c = 0x7B" | (str) "c \<noteq> 0x5B" "c \<noteq> 0x7B" "c = 0x22"
      | (other) "c \<noteq> 0x5B" "c \<noteq> 0x7B" "c \<noteq> 0x22"
      by blast
    then show ?thesis
    proof cases
      case arr
      with p sk obtain d t' where t: "skip_ws t = d # t'"
        by (cases "skip_ws t") auto
      from arr p sk t have "r = t' \<or> parse_elements n t [] = Ok v r"
        by (auto split: if_splits)
      with skip_ws_Cons[OF t] elements_n le show ?thesis
        by fastforce
    next
      case obj
      with p sk obtain d t' where t: "skip_ws t = d # t'"
        by (cases "skip_ws t") auto
      from obj p sk t have "r = t' \<or> parse_members n t [] = Ok v r"
        by (auto split: if_splits)
      with skip_ws_Cons[OF t] members_n le show ?thesis
        by fastforce
    next
      case str
      with p sk obtain s where "json_string t = Some (s, r)"
        by (auto split: option.splits)
      from json_string_shorter[OF this] le show ?thesis
        by simp
    next
      case other
      with p sk have "r = drop 4 (c # t) \<or> r = drop 5 (c # t)
          \<or> (\<exists>v. json_number (c # t) = Some (v, r))"
        by (auto split: if_splits option.splits)
      with le json_number_shorter show ?thesis
        by fastforce
    qed
  qed
  moreover have "length r < length cs" if p: "parse_elements (Suc n) cs acc = Ok v r"
  proof -
    from p obtain x r1 where x: "parse_value n cs = Ok x r1"
      by (cases "parse_value n cs") auto
    with p obtain d r2 where sk: "skip_ws r1 = d # r2"
      by (cases "skip_ws r1") auto
    from p x sk have "r = r2 \<or> (\<exists>a. parse_elements n r2 a = Ok v r)"
      by (auto split: if_splits)
    with value_n[OF x] skip_ws_Cons[OF sk] elements_n show ?thesis
      by fastforce
  qed
  moreover have "length r < length cs" if p: "parse_members (Suc n) cs macc = Ok v r"
  proof -
    from p obtain q t where sk: "skip_ws cs = q # t"
      by (cases "skip_ws cs") auto
    with p obtain k r1 where k: "json_string t = Some (k, r1)"
      by (auto split: if_splits option.splits)
    with p sk obtain c r2 where sk1: "skip_ws r1 = c # r2"
      by (cases "skip_ws r1") (auto split: if_splits)
    with p sk k obtain x r3 where x: "parse_value n r2 = Ok x r3"
      by (cases "parse_value n r2") (auto split: if_splits)
    with p sk k sk1 obtain d r4 where sk3: "skip_ws r3 = d # r4"
      by (cases "skip_ws r3") (auto split: if_splits)
    from p sk k sk1 x sk3 have "r = r4 \<or> (\<exists>a. parse_members n r4 a = Ok v r)"
      by (auto split: if_splits)
    with skip_ws_Cons[OF sk] json_string_shorter[OF k] skip_ws_Cons[OF sk1] value_n[OF x]
      skip_ws_Cons[OF sk3] members_n
    show ?thesis
      by fastforce
  qed
  ultimately show ?case
    by blast
qed

lemma parse_value_consumes: "parse_value n cs = Ok v r \<Longrightarrow> length r < length cs"
  using parse_consumes[of n cs v r] by blast

lemma parse_fuel:
  "(2 * length cs < n \<longrightarrow> parse_value n cs \<noteq> OutOfFuel)
   \<and> (2 * length cs + 1 < n \<longrightarrow> parse_elements n cs acc \<noteq> OutOfFuel)
   \<and> (2 * length cs + 1 < n \<longrightarrow> parse_members n cs macc \<noteq> OutOfFuel)"
proof (induction n arbitrary: cs acc macc)
  case 0
  then show ?case by simp
next
  case (Suc n)
  have value_n: "\<And>cs. 2 * length cs < n \<Longrightarrow> parse_value n cs \<noteq> OutOfFuel"
    and elements_n: "\<And>cs acc. 2 * length cs + 1 < n \<Longrightarrow> parse_elements n cs acc \<noteq> OutOfFuel"
    and members_n: "\<And>cs macc. 2 * length cs + 1 < n \<Longrightarrow> parse_members n cs macc \<noteq> OutOfFuel"
    using Suc.IH by blast+
  have "parse_value (Suc n) cs \<noteq> OutOfFuel" if fuel: "2 * length cs < Suc n"
  proof (cases "skip_ws cs")
    case Nil
    then show ?thesis by simp
  next
    case (Cons c t)
    from skip_ws_Cons[OF Cons] fuel have t: "2 * length t + 1 < n"
      by simp
    from elements_n[OF t] members_n[OF t] show ?thesis
      by (auto simp: Cons split: list.splits option.splits)
  qed
  moreover have "parse_elements (Suc n) cs acc \<noteq> OutOfFuel" if fuel: "2 * length cs + 1 < Suc n"
  proof (cases "parse_value n cs")
    case (Ok x r1)
    show ?thesis
    proof (cases "skip_ws r1")
      case Nil
      with Ok show ?thesis by simp
    next
      case (Cons d r2)
      from parse_value_consumes[OF Ok] skip_ws_Cons[OF Cons] fuel have "2 * length r2 + 1 < n"
        by simp
      from elements_n[OF this] Ok Cons show ?thesis
        by simp
    qed
  next
    case Fail
    then show ?thesis by simp
  next
    case OutOfFuel
    with value_n[of cs] fuel show ?thesis
      by simp
  qed
  moreover have "parse_members (Suc n) cs macc \<noteq> OutOfFuel" if fuel: "2 * length cs + 1 < Suc n"
  proof (cases "skip_ws cs")
    case Nil
    then show ?thesis by simp
  next
    case sk: (Cons q t)
    show ?thesis
    proof (cases "json_string t")
      case None
      with sk show ?thesis by simp
    next
      case (Some kr)
      obtain k r1 where kr: "kr = (k, r1)"
        by (cases kr)
      with Some have js: "json_string t = Some (k, r1)"
        by simp
      show ?thesis
      proof (cases "skip_ws r1")
        case Nil
        with sk Some kr show ?thesis by simp
      next
        case sk1: (Cons c r2)
        from skip_ws_Cons[OF sk] json_string_shorter[OF js] skip_ws_Cons[OF sk1] fuel
        have r2: "2 * length r2 < n" "length r2 < length cs"
          by simp_all
        show ?thesis
        proof (cases "parse_value n r2")
          case (Ok x r3)
          show ?thesis
          proof (cases "skip_ws r3")
            case Nil
            with sk Some kr sk1 Ok show ?thesis by simp
          next
            case (Cons d r4)
            from parse_value_consumes[OF Ok] skip_ws_Cons[OF Cons] r2 fuel
            have "2 * length r4 + 1 < n"
              by simp
            from members_n[OF this] sk Some kr sk1 Ok Cons show ?thesis
              by simp
          qed
        next
          case Fail
          with sk Some kr sk1 show ?thesis by simp
        next
          case OutOfFuel
          with value_n[OF r2(1)] show ?thesis by simp
        qed
      qed
    qed
  qed
  ultimately show ?case
    by blast
qed

lemma JSON_parse_fuel: "parse_value (2 * length t + 1) t \<noteq> OutOfFuel"
  using parse_fuel[of t "2 * length t + 1"] by simp

subsection \<open>decodeURIComponent after encodeURIComponent\<close>

lemma unat_lt_65536: "unat (c :: 16 word) < 65536"
  using unsigned_less[of c, where ?'a = nat] by simp

lemma hex_val_hex_char: "d < 16 \<Longrightarrow> hex_val (hex_char d) = Some d"
  by (auto simp: hex_val_def hex_char_def word_le_nat_alt unat_of_nat)

lemma hex_char_not_special:
  "d < 16 \<Longrightarrow> hex_char d \<noteq> 0x26 \<and> hex_char d \<noteq> 0x3D \<and> hex_char d \<noteq> 0x3F \<and> hex_char d \<noteq> 0x25"
  by (auto simp: hex_char_def word_eq_iff_unsigned[where ?'a = nat] unat_of_nat)

lemma uri_tokens_pct_octet:
  "b < 256 \<Longrightarrow> uri_tokens (pct_octet b @ rest) = map_option ((#) (Octet b)) (uri_tokens rest)"
  by (simp add: pct_octet_def hex_val_hex_char)

lemma uri_unreserved_not_special:
  "uri_unreserved c \<Longrightarrow> c \<noteq> 0x26 \<and> c \<noteq> 0x3D \<and> c \<noteq> 0x3F \<and> c \<noteq> 0x25"
  by (auto simp: uri_unreserved_def is_digit_def)

lemma utf8_encode_octets: "cp < 0x110000 \<Longrightarrow> \<forall>b\<in>set (utf8_encode cp). b < 256"
  by (auto simp: utf8_encode_def)

lemma special_notin_pct_octet:
  "b < 256 \<Longrightarrow> 0x26 \<notin> set (pct_octet b) \<and> 0x3D \<notin> set (pct_octet b) \<and> 0x3F \<notin> set (pct_octet b)"
  using hex_char_not_special[of "b div 16"] hex_char_not_special[of "b mod 16"]
  by (auto simp: pct_octet_def)


lemma surrogate_pair_range:
  "is_high_surrogate h \<Longrightarrow> is_low_surrogate l \<Longrightarrow>
   0x10000 \<le> surrogate_pair h l \<and> surrogate_pair h l < 0x110000"
  using unat_lt_65536[of h] unat_lt_65536[of l]
  by (auto simp: is_high_surrogate_def is_low_surrogate_def surrogate_pair_def word_le_nat_alt)

lemma utf16_encode_surrogate_pair:
  "is_high_surrogate h \<Longrightarrow> is_low_surrogate l \<Longrightarrow> utf16_encode (surrogate_pair h l) = [h, l]"
proof -
  assume h: "is_high_surrogate h" and l: "is_low_surrogate l"
  then have hb: "0xD800 \<le> unat h" "unat h \<le> 0xDBFF" and lb: "0xDC00 \<le> unat l" "unat l \<le> 0xDFFF"
    by (auto simp: is_high_surrogate_def is_low_surrogate_def word_le_nat_alt)
  define a where "a = unat h - 0xD800"
  define b where "b = unat l - 0xDC00"
  have ab: "a < 0x400" "b < 0x400" "unat h = 0xD800 + a" "unat l = 0xDC00 + b"
    using hb lb by (auto simp: a_def b_def)
  have sp: "surrogate_pair h l = 0x10000 + a * 0x400 + b"
    by (simp add: surrogate_pair_def a_def b_def)
  have "(a * 0x400 + b) div 0x400 = a" "(a * 0x400 + b) mod 0x400 = b"
    using ab by auto
  then have "utf16_encode (surrogate_pair h l) = [of_nat (unat h), of_nat (unat l)]"
    using ab by (simp add: sp utf16_encode_def)
  then show ?thesis by simp
qed

lemma code_points_valid:
  "code_points s = Some cps \<Longrightarrow> (\<forall>cp\<in>set cps. valid_cp cp) \<and> concat (map utf16_encode cps) = s"
proof (induction s arbitrary: cps rule: code_points.induct)
  case 1
  then show ?case by simp
next
  case (2 c cs)
  show ?case
  proof (cases "is_high_surrogate c")
    case True
    with "2.prems" obtain d ds rest where cs: "cs = d # ds" and d: "is_low_surrogate d"
      and rest: "code_points ds = Some rest" and cps: "cps = surrogate_pair c d # rest"
      by (auto split: list.splits if_splits)
    from "2.IH"(1)[OF True cs d rest] surrogate_pair_range[OF True d]
      utf16_encode_surrogate_pair[OF True d]
    show ?thesis by (auto simp: cps cs valid_cp_def)
  next
    case False
    with "2.prems" obtain rest where low: "\<not> is_low_surrogate c"
      and rest: "code_points cs = Some rest" and cps: "cps = unat c # rest"
      by (auto split: if_splits)
    from False low have "valid_cp (unat c)"
      using unat_lt_65536[of c]
      by (auto simp: valid_cp_def is_high_surrogate_def is_low_surrogate_def word_le_nat_alt)
    moreover have "utf16_encode (unat c) = [c]"
      using unat_lt_65536[of c] by (simp add: utf16_encode_def)
    ultimately show ?thesis
      using "2.IH"(2)[OF False low rest] by (simp add: cps)
  qed
qed

lemma append_single: "(@) [x] = (#) x"
  by (simp add: fun_eq_iff)


lemma uri_tokens_octets:
  "\<forall>b\<in>set bs. b < 256 \<Longrightarrow>
   uri_tokens (concat (map pct_octet bs) @ rest) = map_option ((@) (map Octet bs)) (uri_tokens rest)"
proof (induction bs)
  case Nil
  then show ?case by (simp add: option.map_ident)
next
  case (Cons b bs)
  then show ?case
    by (simp add: uri_tokens_pct_octet option.map_comp comp_def)
qed

lemma uri_tokens_encode_code_point:
  assumes "valid_cp cp"
  shows "uri_tokens (encode_code_point cp @ rest) = map_option ((@) (cp_tokens cp)) (uri_tokens rest)"
proof (cases "cp < 0x80 \<and> uri_unreserved (of_nat cp)")
  case True
  then show ?thesis
    using uri_unreserved_not_special[of "of_nat cp"]
    by (simp add: encode_code_point_def cp_tokens_def append_single)
next
  case False
  then have enc: "encode_code_point cp = concat (map pct_octet (utf8_encode cp))"
    and tok: "cp_tokens cp = map Octet (utf8_encode cp)"
    by (auto simp: encode_code_point_def cp_tokens_def)
  from assms have "\<forall>b\<in>set (utf8_encode cp). b < 256"
    using utf8_encode_octets[of cp] by (simp add: valid_cp_def)
  then show ?thesis
    unfolding enc tok by (rule uri_tokens_octets)
qed

lemma split3: "cp div 4096 * 4096 + cp div 64 mod 64 * 64 + cp mod 64 = (cp::nat)"
proof -
  define a where "a = cp div 64"
  define b where "b = a div 64"
  have 1: "cp div 4096 = b" by (simp add: a_def b_def div_mult2_eq)
  have 2: "cp = a * 64 + cp mod 64" by (simp add: a_def)
  have 3: "a = b * 64 + a mod 64" by (simp add: b_def)
  have "b * 4096 + a mod 64 * 64 + cp mod 64 = (b * 64 + a mod 64) * 64 + cp mod 64"
    by (simp add: algebra_simps)
  also have "\<dots> = cp" using 2 3 by simp
  finally show ?thesis by (simp add: 1 a_def)
qed
lemma split4:
  "cp div 262144 * 262144 + cp div 4096 mod 64 * 4096 + cp div 64 mod 64 * 64 + cp mod 64 = (cp::nat)"
proof -
  define a where "a = cp div 64"
  define b where "b = a div 64"
  define c where "c = b div 64"
  have 1: "cp div 4096 = b" "cp div 262144 = c" by (simp_all add: a_def b_def c_def div_mult2_eq)
  have 2: "cp = a * 64 + cp mod 64" by (simp add: a_def)
  have 3: "a = b * 64 + a mod 64" by (simp add: b_def)
  have 4: "b = c * 64 + b mod 64" by (simp add: c_def)
  have "c * 262144 + b mod 64 * 4096 + a mod 64 * 64 + cp mod 64
        = ((c * 64 + b mod 64) * 64 + a mod 64) * 64 + cp mod 64"
    by (simp add: algebra_simps)
  also have "\<dots> = cp" using 2 3 4 by simp
  finally show ?thesis by (simp add: 1 a_def)
qed

lemma uri_units_cp_tokens:
  assumes "valid_cp cp"
  shows "uri_units (cp_tokens cp @ ts) = map_option ((@) (utf16_encode cp)) (uri_units ts)"
proof -
  consider (lit) "cp < 0x80" "uri_unreserved (of_nat cp)"
    | (one) "cp < 0x80" "\<not> uri_unreserved (of_nat cp)"
    | (two) "0x80 \<le> cp" "cp < 0x800"
    | (three) "0x800 \<le> cp" "cp < 0x10000"
    | (four) "0x10000 \<le> cp"
    by linarith
  then show ?thesis
  proof cases
    case lit
    then show ?thesis
      by (simp add: cp_tokens_def utf16_encode_def append_single)
  next
    case one
    then show ?thesis
      by (simp add: cp_tokens_def utf16_encode_def utf8_encode_def append_single)
  next
    case two
    then have "cp div 64 < 32"
      by simp
    moreover from two have "utf8_decode2 (0xC0 + cp div 64) (0x80 + cp mod 64) = Some cp"
      by (simp add: utf8_decode2_def is_cont_def Let_def)
    ultimately show ?thesis
      using two by (simp add: cp_tokens_def utf8_encode_def)
  next
    case three
    then have "cp div 4096 < 16"
      by simp
    moreover from three assms
    have "utf8_decode3 (0xE0 + cp div 4096) (0x80 + cp div 64 mod 64) (0x80 + cp mod 64)
          = Some cp"
      by (simp add: utf8_decode3_def is_cont_def Let_def split3 valid_cp_def)
    ultimately show ?thesis
      using three by (simp add: cp_tokens_def utf8_encode_def)
  next
    case four
    with assms have "cp div 262144 < 8"
      by (simp add: valid_cp_def)
    moreover from four assms
    have "utf8_decode4 (0xF0 + cp div 262144) (0x80 + cp div 4096 mod 64)
          (0x80 + cp div 64 mod 64) (0x80 + cp mod 64) = Some cp"
      by (simp add: utf8_decode4_def is_cont_def Let_def split4 valid_cp_def)
    ultimately show ?thesis
      using four by (simp add: cp_tokens_def utf8_encode_def)
  qed
qed

lemma uri_tokens_encoded:
  "\<forall>cp\<in>set cps. valid_cp cp \<Longrightarrow>
   uri_tokens (concat (map encode_code_point cps)) = Some (concat (map cp_tokens cps))"
proof (induction cps)
  case Nil
  then show ?case by simp
next
  case (Cons cp cps)
  then show ?case by (simp add: uri_tokens_encode_code_point)
qed

lemma uri_units_encoded:
  "\<forall>cp\<in>set cps. valid_cp cp \<Longrightarrow>
   uri_units (concat (map cp_tokens cps)) = Some (concat (map utf16_encode cps))"
proof (induction cps)
  case Nil
  then show ?case by simp
next
  case (Cons cp cps)
  then show ?case by (simp add: uri_units_cp_tokens)
qed

lemma decode_encode_URIComponent:
  assumes "encodeURIComponent s = Inr t"
  shows "decodeURIComponent t = Inr s"
proof -
  from assms obtain cps where cps: "code_points s = Some cps"
    and t: "t = concat (map encode_code_point cps)"
    by (auto simp: encodeURIComponent_def split: option.splits)
  from code_points_valid[OF cps] have v: "\<forall>cp\<in>set cps. valid_cp cp"
    and s: "concat (map utf16_encode cps) = s"
    by simp_all
  show ?thesis
    by (simp add: decodeURIComponent_def t uri_tokens_encoded[OF v] uri_units_encoded[OF v] s)
qed

lemma encode_code_point_no_special:
  assumes "valid_cp cp"
  shows "0x26 \<notin> set (encode_code_point cp) \<and> 0x3D \<notin> set (encode_code_point cp)
         \<and> 0x3F \<notin> set (encode_code_point cp)"
proof (cases "cp < 0x80 \<and> uri_unreserved (of_nat cp)")
  case True
  then show ?thesis
    using uri_unreserved_not_special[of "of_nat cp"] by (simp add: encode_code_point_def)
next
  case False
  from assms have "\<forall>b\<in>set (utf8_encode cp). b < 256"
    using utf8_encode_octets[of cp] by (simp add: valid_cp_def)
  with False show ?thesis
    using special_notin_pct_octet by (auto simp: encode_code_point_def)
qed

lemma encodeURIComponent_no_special:
  assumes "encodeURIComponent s = Inr t"
  shows "0x26 \<notin> set t \<and> 0x3D \<notin> set t \<and> 0x3F \<notin> set t"
proof -
  from assms obtain cps where cps: "code_points s = Some cps"
    and t: "t = concat (map encode_code_point cps)"
    by (auto simp: encodeURIComponent_def split: option.splits)
  from code_points_valid[OF cps] have "\<forall>cp\<in>set cps. valid_cp cp"
    by simp
  then show ?thesis
    using encode_code_point_no_special by (auto simp: t)
qed

subsection \<open>Reading a quoted string\<close>


lemma unat_of_nat16: "n < 65536 \<Longrightarrow> unat (of_nat n :: 16 word) = n"
  by (simp add: unat_of_nat)

lemma hex_val_hex_char_lower: "d < 16 \<Longrightarrow> hex_val (hex_char_lower d) = Some d"
  using unat_of_nat16[of "48 + d"] unat_of_nat16[of "87 + d"]
  by (auto simp: hex_val_def hex_char_lower_def word_le_nat_alt)

lemma split_hex4:
  "u div 4096 * 4096 + u div 256 mod 16 * 256 + u div 16 mod 16 * 16 + u mod 16 = (u::nat)"
proof -
  define a where "a = u div 16"
  define b where "b = a div 16"
  define c where "c = b div 16"
  have 1: "u div 256 = b" "u div 4096 = c" by (simp_all add: a_def b_def c_def div_mult2_eq)
  have 2: "u = a * 16 + u mod 16" by (simp add: a_def)
  have 3: "a = b * 16 + a mod 16" by (simp add: b_def)
  have 4: "b = c * 16 + b mod 16" by (simp add: c_def)
  have "c * 4096 + b mod 16 * 256 + a mod 16 * 16 + u mod 16
        = ((c * 16 + b mod 16) * 16 + a mod 16) * 16 + u mod 16"
    by (simp add: algebra_simps)
  also have "\<dots> = u" using 2 3 4 by simp
  finally show ?thesis by (simp add: 1 a_def)
qed

lemma json_string_unicode_escape:
  "json_string (unicode_escape c @ r) = map_option (apfst ((#) c)) (json_string r)"
proof -
  have "unat c div 4096 < 16"
    using unat_lt_65536[of c] by simp
  then have "hex4 (hex_char_lower (unat c div 4096)) (hex_char_lower (unat c div 256 mod 16))
          (hex_char_lower (unat c div 16 mod 16)) (hex_char_lower (unat c mod 16)) = Some c"
    using split_hex4[of "unat c"]
    by (simp add: hex4_def hex_val_hex_char_lower algebra_simps)
  then show ?thesis
    by (simp add: unicode_escape_def)
qed

lemma json_string_quote_unit:
  "json_string (quote_unit c @ r) = map_option (apfst ((#) c)) (json_string r)"
proof (cases "c = 0x08 \<or> c = 0x09 \<or> c = 0x0A \<or> c = 0x0C \<or> c = 0x0D \<or> c = 0x22 \<or> c = 0x5C")
  case True
  then show ?thesis
    by (auto simp: quote_unit_def json_escape_def)
next
  case False
  show ?thesis
  proof (cases "c < 0x20 \<or> is_high_surrogate c \<or> is_low_surrogate c")
    case True
    with False have "quote_unit c = unicode_escape c"
      by (simp add: quote_unit_def)
    then show ?thesis
      by (simp add: json_string_unicode_escape)
  next
    case esc: False
    with False show ?thesis
      by (simp add: quote_unit_def)
  qed
qed

lemma json_string_surrogate:
  "is_high_surrogate c \<or> is_low_surrogate c \<Longrightarrow>
   json_string (c # r) = map_option (apfst ((#) c)) (json_string r)"
  by (auto simp: is_high_surrogate_def is_low_surrogate_def word_le_nat_alt word_less_nat_alt)

lemma json_string_quote_units:
  "json_string (quote_units s @ 0x22 # rest) = Some (s, rest)"
proof (induction s rule: quote_units.induct)
  case 1
  then show ?case by simp
next
  case (2 c)
  have "json_string (quote_unit c @ 0x22 # rest) = Some ([c], rest)"
    by (simp add: json_string_quote_unit)
  then show ?case by simp
next
  case (3 c d ds)
  show ?case
  proof (cases "is_high_surrogate c \<and> is_low_surrogate d")
    case True
    with "3.IH"(1)[OF True] show ?thesis
      by (simp add: json_string_surrogate del: json_string.simps)
  next
    case False
    then have "quote_units (c # d # ds) = quote_unit c @ quote_units (d # ds)"
      by auto
    with "3.IH"(2)[OF False] show ?thesis
      by (simp add: json_string_quote_unit del: json_string.simps)
  qed
qed

subsection \<open>Reading a printed number\<close>


lemma digit_char_props:
  assumes "d < 10"
  shows "is_digit (digit_char d)" and "digit_val (digit_char d) = d"
    and "digit_char d = 0x30 \<longleftrightarrow> d = 0"
  using assms unat_of_nat16[of "48 + d"]
  by (auto simp: is_digit_def digit_char_def digit_val_def word_le_nat_alt
        word_eq_iff_unsigned[where ?'a = nat])

lemma digits_of_nat_digits: "\<forall>c\<in>set (digits_of_nat n). is_digit c"
proof (induction n rule: digits_of_nat.induct)
  case (1 n)
  show ?case
  proof (cases "n < 10")
    case True
    then show ?thesis
      by (subst digits_of_nat.simps) (simp add: digit_char_props)
  next
    case False
    with 1 show ?thesis
      by (subst digits_of_nat.simps) (simp add: digit_char_props)
  qed
qed

lemma digits_of_nat_nonempty: "digits_of_nat n \<noteq> []"
  by (subst digits_of_nat.simps) simp

lemma nat_of_digits_append:
  "nat_of_digits acc (xs @ ys) = nat_of_digits (nat_of_digits acc xs) ys"
  by (induction xs arbitrary: acc) simp_all

lemma nat_of_digits_of_nat: "nat_of_digits 0 (digits_of_nat n) = n"
proof (induction n rule: digits_of_nat.induct)
  case (1 n)
  show ?case
  proof (cases "n < 10")
    case True
    then show ?thesis
      by (subst digits_of_nat.simps) (simp add: digit_char_props)
  next
    case False
    with 1 show ?thesis
      by (subst digits_of_nat.simps) (simp add: nat_of_digits_append digit_char_props)
  qed
qed

lemma digits_of_nat_no_leading_zero: "0 < n \<Longrightarrow> hd (digits_of_nat n) \<noteq> 0x30"
proof (induction n rule: digits_of_nat.induct)
  case (1 n)
  show ?case
  proof (cases "n < 10")
    case True
    with "1.prems" show ?thesis
      by (subst digits_of_nat.simps) (simp add: digit_char_props)
  next
    case False
    with 1 have "hd (digits_of_nat (n div 10)) \<noteq> 0x30"
      by simp
    with False show ?thesis
      by (subst digits_of_nat.simps) (simp add: digits_of_nat_nonempty)
  qed
qed

lemma nat_of_digits_zeros: "nat_of_digits acc (replicate j 0x30) = acc * 10 ^ j"
  by (induction j arbitrary: acc) (simp_all add: digit_val_def)

lemma is_digit_zero: "is_digit 0x30"
  by (simp add: is_digit_def)

lemma strip_zeros_normal: "m mod 10 \<noteq> 0 \<Longrightarrow> strip_zeros m e = (m, e)"
  by (subst strip_zeros.simps) simp

lemma strip_zeros_power:
  "m mod 10 \<noteq> 0 \<Longrightarrow> strip_zeros (m * 10 ^ j) e = (m, e + int j)"
proof (induction j arbitrary: e)
  case 0
  then show ?case by (simp add: strip_zeros_normal)
next
  case (Suc j)
  from Suc.prems have "m \<noteq> 0" by auto
  then have "strip_zeros (m * 10 ^ Suc j) e = strip_zeros (m * 10 ^ j) (e + 1)"
    by (subst strip_zeros.simps) simp
  with Suc show ?case by simp
qed

lemma takeWhile_digits:
  assumes "\<forall>c\<in>set ds. is_digit c" and "r = [] \<or> \<not> is_digit (hd r)"
  shows "takeWhile is_digit (ds @ r) = ds" and "dropWhile is_digit (ds @ r) = r"
proof -
  from assms(2) have "takeWhile is_digit r = []" "dropWhile is_digit r = r"
    by (cases r; auto)+
  with assms(1) show "takeWhile is_digit (ds @ r) = ds" "dropWhile is_digit (ds @ r) = r"
    by (simp_all add: takeWhile_append2 dropWhile_append2)
qed


lemma delimited_no_digit: "delimited r \<Longrightarrow> r = [] \<or> \<not> is_digit (hd r)"
  by (auto simp: delimited_def is_digit_def split: list.splits)

lemma json_exponent_none: "delimited r \<Longrightarrow> json_exponent r = Some (0, r)"
  by (auto simp: delimited_def json_exponent_def split: list.splits)

lemma json_fraction_none: "delimited r \<Longrightarrow> json_fraction r = Some ([], r)"
  by (auto simp: delimited_def json_fraction_def split: list.splits)

lemma json_fraction_exp: "json_fraction (0x65 # r) = Some ([], 0x65 # r)"
  by (simp add: json_fraction_def)

lemma json_fraction_some:
  assumes "\<forall>c\<in>set fp. is_digit c" and "fp \<noteq> []" and "r = [] \<or> \<not> is_digit (hd r)"
  shows "json_fraction (0x2E # fp @ r) = Some (fp, r)"
  using assms takeWhile_digits[OF assms(1,3)] by (simp add: json_fraction_def)

lemma json_exponent_some:
  assumes "\<forall>c\<in>set ds. is_digit c" and "ds \<noteq> []" and "delimited r"
  shows "json_exponent (0x65 # 0x2B # ds @ r) = Some (int (nat_of_digits 0 ds), r)"
    and "json_exponent (0x65 # 0x2D # ds @ r) = Some (- int (nat_of_digits 0 ds), r)"
  using assms takeWhile_digits[OF assms(1) delimited_no_digit[OF assms(3)]]
  by (simp_all add: json_exponent_def Let_def)

lemma json_number_parts:
  assumes ip: "\<forall>c\<in>set ip. is_digit c" "ip \<noteq> []" "length ip = 1 \<or> hd ip \<noteq> 0x30"
    and r1: "r1 = [] \<or> \<not> is_digit (hd r1)"
    and fr: "json_fraction r1 = Some (fp, r2)"
    and ex: "json_exponent r2 = Some (ex, r3)"
  shows "json_number (ip @ r1) = Some (mk_num False (nat_of_digits 0 (ip @ fp)) (ex - int (length fp)), r3)"
    and "json_number (0x2D # ip @ r1) = Some (mk_num True (nat_of_digits 0 (ip @ fp)) (ex - int (length fp)), r3)"
proof -
  from ip obtain c cs where c: "ip = c # cs" "is_digit c"
    by (cases ip) auto
  then have nm: "c \<noteq> 0x2D"
    by (auto simp: is_digit_def)
  from ip(3) have lz: "\<not> (1 < length ip \<and> hd ip = 0x30)"
    by auto
  note tw = takeWhile_digits[OF ip(1) r1]
  show "json_number (ip @ r1) = Some (mk_num False (nat_of_digits 0 (ip @ fp)) (ex - int (length fp)), r3)"
    using nm lz ip(2) tw fr ex
    by (simp add: json_number_def Let_def c(1)[symmetric] del: nat_of_digits.simps)
       (simp add: c(1))
  show "json_number (0x2D # ip @ r1) = Some (mk_num True (nat_of_digits 0 (ip @ fp)) (ex - int (length fp)), r3)"
    using lz ip(2) tw fr ex
    by (simp add: json_number_def Let_def del: nat_of_digits.simps)
qed


lemma abs_mod10:
  assumes "(m::int) mod 10 \<noteq> 0"
  shows "nat \<bar>m\<bar> mod 10 \<noteq> 0"
proof -
  from assms have "\<bar>m\<bar> mod 10 \<noteq> 0"
    by presburger
  moreover have "int (nat \<bar>m\<bar> mod 10) = \<bar>m\<bar> mod 10"
    by (simp add: zmod_int)
  ultimately show ?thesis
    by linarith
qed

lemma number_body_eq:
  assumes "k = int (length s)" and "n = k + e"
  shows "number_body s e =
     (if k \<le> n \<and> n \<le> 21 then s @ replicate (nat (n - k)) 0x30
      else if 0 < n \<and> n \<le> 21 then take (nat n) s @ 0x2E # drop (nat n) s
      else if - 6 < n \<and> n \<le> 0 then 0x30 # 0x2E # replicate (nat (- n)) 0x30 @ s
      else
        (if k = 1 then s else take 1 s @ 0x2E # drop 1 s)
        @ 0x65 # (if n - 1 < 0 then 0x2D else 0x2B) # digits_of_nat (nat \<bar>n - 1\<bar>))"
  unfolding assms by (simp add: number_body_def Let_def S_def)

lemma number_to_string_body:
  assumes "m mod 10 \<noteq> 0"
  shows "number_to_string m e =
         (if m < 0 then S ''-'' else []) @ number_body (digits_of_nat (nat \<bar>m\<bar>)) e"
proof -
  from assms have "m \<noteq> 0" by auto
  with abs_mod10[OF assms] show ?thesis
    by (simp add: number_to_string_def number_body_def strip_zeros_normal Let_def)
qed


lemma number_partsI:
  assumes "body @ rest = ip @ r1" "\<forall>c\<in>set ip. is_digit c" "ip \<noteq> []"
    "length ip = 1 \<or> hd ip \<noteq> 0x30" "r1 = [] \<or> \<not> is_digit (hd r1)"
    "json_fraction r1 = Some (fp, r2)" "json_exponent r2 = Some (ex, rest)"
    "nat_of_digits 0 (ip @ fp) \<noteq> 0"
    "strip_zeros (nat_of_digits 0 (ip @ fp)) (ex - int (length fp)) = (a, e)"
  shows "number_parts body rest a e ip"
  unfolding number_parts_def using assms by blast

lemma number_body_parts:
  assumes a: "0 < a" "a mod 10 \<noteq> 0" and rest: "delimited rest"
  shows "\<exists>ip. number_parts (number_body (digits_of_nat a) e) rest a e ip"
proof -
  define s where "s = digits_of_nat a"
  define k where "k = int (length s)"
  define n where "n = k + e"
  have dig: "\<forall>c\<in>set s. is_digit c" and ne: "s \<noteq> []" and val: "nat_of_digits 0 s = a"
    and lz: "hd s \<noteq> 0x30"
    using a by (simp_all add: s_def digits_of_nat_digits digits_of_nat_nonempty
        nat_of_digits_of_nat digits_of_nat_no_leading_zero)
  from ne have kpos: "0 < k" by (simp add: k_def)
  note nd = delimited_no_digit[OF rest]
  consider (A) "k \<le> n" "n \<le> 21"
    | (B) "n < k" "0 < n" "n \<le> 21"
    | (C) "n < k" "- 6 < n" "n \<le> 0"
    | (D) "\<not> (k \<le> n \<and> n \<le> 21)" "\<not> (0 < n \<and> n \<le> 21)" "\<not> (- 6 < n \<and> n \<le> 0)"
    using kpos by linarith
  then show ?thesis
  proof cases
    case A
    define j where "j = nat (n - k)"
    from A have e: "e = int j" by (simp add: j_def n_def)
    have body: "number_body s e = s @ replicate j 0x30"
      using A by (simp add: number_body_eq[OF k_def n_def] j_def)
    have "number_parts (number_body s e) rest a e (s @ replicate j 0x30)"
    proof (rule number_partsI[where ?r1.0 = rest and fp = "[]" and ?r2.0 = rest and ex = 0])
      show "number_body s e @ rest = (s @ replicate j 0x30) @ rest"
        by (simp add: body)
      show "\<forall>c\<in>set (s @ replicate j 0x30). is_digit c"
        using dig by (auto simp: is_digit_zero)
      show "s @ replicate j 0x30 \<noteq> []"
        using ne by simp
      show "length (s @ replicate j 0x30) = 1 \<or> hd (s @ replicate j 0x30) \<noteq> 0x30"
        using ne lz by simp
      show "rest = [] \<or> \<not> is_digit (hd rest)"
        by (rule nd)
      show "json_fraction rest = Some ([], rest)"
        by (rule json_fraction_none[OF rest])
      show "json_exponent rest = Some (0, rest)"
        by (rule json_exponent_none[OF rest])
      show "nat_of_digits 0 ((s @ replicate j 0x30) @ []) \<noteq> 0"
        using a by (simp add: nat_of_digits_append val nat_of_digits_zeros)
      show "strip_zeros (nat_of_digits 0 ((s @ replicate j 0x30) @ [])) (0 - int (length ([]::jstring)))
            = (a, e)"
        using a by (simp add: nat_of_digits_append val nat_of_digits_zeros strip_zeros_power e)
    qed
    then show ?thesis unfolding s_def by blast
  next
    case B
    define i where "i = nat n"
    from B have i: "0 < i" "i < length s" "int i = n"
      by (simp_all add: i_def k_def)
    have body: "number_body s e = take i s @ 0x2E # drop i s"
      using B by (simp add: number_body_eq[OF k_def n_def] i_def)
    have "number_parts (number_body s e) rest a e (take i s)"
    proof (rule number_partsI[where ?r1.0 = "0x2E # drop i s @ rest" and fp = "drop i s"
          and ?r2.0 = rest and ex = 0])
      show "number_body s e @ rest = take i s @ 0x2E # drop i s @ rest"
        by (simp add: body)
      show "\<forall>c\<in>set (take i s). is_digit c"
        using dig by (auto dest: in_set_takeD)
      show "take i s \<noteq> []"
        using i ne by simp
      show "length (take i s) = 1 \<or> hd (take i s) \<noteq> 0x30"
        using i lz by simp
      show "0x2E # drop i s @ rest = [] \<or> \<not> is_digit (hd (0x2E # drop i s @ rest))"
        by (simp add: is_digit_def)
      show "json_fraction (0x2E # drop i s @ rest) = Some (drop i s, rest)"
        using dig i nd by (intro json_fraction_some) (auto dest: in_set_dropD)
      show "json_exponent rest = Some (0, rest)"
        by (rule json_exponent_none[OF rest])
      show "nat_of_digits 0 (take i s @ drop i s) \<noteq> 0"
        using a by (simp add: val)
      show "strip_zeros (nat_of_digits 0 (take i s @ drop i s)) (0 - int (length (drop i s))) = (a, e)"
        using a i by (simp add: val strip_zeros_normal n_def k_def)
    qed
    then show ?thesis unfolding s_def by blast
  next
    case C
    define j where "j = nat (- n)"
    from C have j: "int j = - n" by (simp add: j_def)
    have body: "number_body s e = 0x30 # 0x2E # replicate j 0x30 @ s"
      using C kpos by (simp add: number_body_eq[OF k_def n_def] j_def)
    have "number_parts (number_body s e) rest a e [0x30]"
    proof (rule number_partsI[where ?r1.0 = "0x2E # (replicate j 0x30 @ s) @ rest"
          and fp = "replicate j 0x30 @ s" and ?r2.0 = rest and ex = 0])
      show "number_body s e @ rest = [0x30] @ 0x2E # (replicate j 0x30 @ s) @ rest"
        by (simp add: body)
      show "\<forall>c\<in>set [0x30]. is_digit c"
        by (simp add: is_digit_zero)
      show "[0x30 :: 16 word] \<noteq> []"
        by simp
      show "length [0x30 :: 16 word] = 1 \<or> hd [0x30 :: 16 word] \<noteq> 0x30"
        by simp
      show "0x2E # (replicate j 0x30 @ s) @ rest = []
            \<or> \<not> is_digit (hd (0x2E # (replicate j 0x30 @ s) @ rest))"
        by (simp add: is_digit_def)
      show "json_fraction (0x2E # (replicate j 0x30 @ s) @ rest) = Some (replicate j 0x30 @ s, rest)"
        using dig ne nd by (intro json_fraction_some) (auto simp: is_digit_zero)
      show "json_exponent rest = Some (0, rest)"
        by (rule json_exponent_none[OF rest])
      have v: "nat_of_digits 0 ([0x30] @ replicate j 0x30 @ s) = a"
        by (simp add: nat_of_digits_append nat_of_digits_zeros val digit_val_def)
      show "nat_of_digits 0 ([0x30] @ replicate j 0x30 @ s) \<noteq> 0"
        using a v by simp
      show "strip_zeros (nat_of_digits 0 ([0x30] @ replicate j 0x30 @ s))
              (0 - int (length (replicate j 0x30 @ s))) = (a, e)"
        using a j unfolding v by (simp add: strip_zeros_normal n_def k_def)
    qed
    then show ?thesis unfolding s_def by blast
  next
    case D
    define x where "x = digits_of_nat (nat \<bar>n - 1\<bar>)"
    define sg :: "16 word" where "sg = (if n - 1 < 0 then 0x2D else 0x2B)"
    have xd: "\<forall>c\<in>set x. is_digit c" and xne: "x \<noteq> []" and xv: "nat_of_digits 0 x = nat \<bar>n - 1\<bar>"
      by (simp_all add: x_def digits_of_nat_digits digits_of_nat_nonempty nat_of_digits_of_nat)
    have ex: "json_exponent (0x65 # sg # x @ rest) = Some (n - 1, rest)"
      using json_exponent_some[OF xd xne rest] by (auto simp: sg_def xv)
    have body: "number_body s e =
        (if k = 1 then s else take 1 s @ 0x2E # drop 1 s) @ 0x65 # sg # x"
      by (simp only: number_body_eq[OF k_def n_def] D if_False) (simp add: x_def sg_def)
    show ?thesis
    proof (cases "k = 1")
      case True
      have "number_parts (number_body s e) rest a e s"
      proof (rule number_partsI[where ?r1.0 = "0x65 # sg # x @ rest" and fp = "[]"
            and ?r2.0 = "0x65 # sg # x @ rest" and ex = "n - 1"])
        show "number_body s e @ rest = s @ 0x65 # sg # x @ rest"
          using True by (simp add: body)
        show "\<forall>c\<in>set s. is_digit c" by (rule dig)
        show "s \<noteq> []" by (rule ne)
        show "length s = 1 \<or> hd s \<noteq> 0x30" using lz by simp
        show "0x65 # sg # x @ rest = [] \<or> \<not> is_digit (hd (0x65 # sg # x @ rest))"
          by (simp add: is_digit_def)
        show "json_fraction (0x65 # sg # x @ rest) = Some ([], 0x65 # sg # x @ rest)"
          by (rule json_fraction_exp)
        show "json_exponent (0x65 # sg # x @ rest) = Some (n - 1, rest)"
          by (rule ex)
        show "nat_of_digits 0 (s @ []) \<noteq> 0"
          using a by (simp add: val)
        show "strip_zeros (nat_of_digits 0 (s @ [])) (n - 1 - int (length ([]::jstring))) = (a, e)"
          using a True by (simp add: val strip_zeros_normal n_def)
      qed
      then show ?thesis unfolding s_def by blast
    next
      case False
      with ne have k2: "1 < length s" by (cases s) (auto simp: k_def)
      have "number_parts (number_body s e) rest a e (take 1 s)"
      proof (rule number_partsI[where ?r1.0 = "0x2E # drop 1 s @ 0x65 # sg # x @ rest"
            and fp = "drop 1 s" and ?r2.0 = "0x65 # sg # x @ rest" and ex = "n - 1"])
        show "number_body s e @ rest = take 1 s @ 0x2E # drop 1 s @ 0x65 # sg # x @ rest"
          using False by (simp add: body)
        show "\<forall>c\<in>set (take 1 s). is_digit c"
          using dig by (auto dest: in_set_takeD)
        show "take 1 s \<noteq> []"
          using ne by simp
        show "length (take 1 s) = 1 \<or> hd (take 1 s) \<noteq> 0x30"
          using lz by simp
        show "0x2E # drop 1 s @ 0x65 # sg # x @ rest = []
              \<or> \<not> is_digit (hd (0x2E # drop 1 s @ 0x65 # sg # x @ rest))"
          by (simp add: is_digit_def)
        show "json_fraction (0x2E # drop 1 s @ 0x65 # sg # x @ rest)
              = Some (drop 1 s, 0x65 # sg # x @ rest)"
          using dig k2 by (intro json_fraction_some) (auto simp: is_digit_def dest: in_set_dropD)
        show "json_exponent (0x65 # sg # x @ rest) = Some (n - 1, rest)"
          by (rule ex)
        show "nat_of_digits 0 (take 1 s @ drop 1 s) \<noteq> 0"
          using a by (simp add: val)
        show "strip_zeros (nat_of_digits 0 (take 1 s @ drop 1 s)) (n - 1 - int (length (drop 1 s)))
              = (a, e)"
          using a k2 by (simp add: val strip_zeros_normal n_def k_def)
      qed
      then show ?thesis unfolding s_def by blast
    qed
  qed
qed

lemma json_number_round_trip:
  assumes "(m = 0 \<and> e = 0) \<or> m mod 10 \<noteq> 0" and "delimited rest"
  shows "json_number (number_to_string m e @ rest) = Some (JNum m e, rest)"
proof (cases "m = 0")
  case True
  with assms(1) have e: "e = 0" by auto
  have "json_number ([0x30] @ rest) = Some (mk_num False (nat_of_digits 0 ([0x30] @ [])) (0 - int (length ([]::jstring))), rest)"
    using delimited_no_digit[OF assms(2)]
    by (intro json_number_parts(1)[where ?r2.0 = rest])
       (simp_all add: is_digit_zero json_fraction_none[OF assms(2)] json_exponent_none[OF assms(2)])
  then show ?thesis
    by (simp add: True e number_to_string_def S_def mk_num_def digit_val_def)
next
  case False
  with assms(1) have m10: "m mod 10 \<noteq> 0" by auto
  define a where "a = nat \<bar>m\<bar>"
  from False abs_mod10[OF m10] have a: "0 < a" "a mod 10 \<noteq> 0"
    by (simp_all add: a_def)
  from number_body_parts[OF a assms(2), of e] obtain ip r1 fp r2 ex
    where eq: "number_body (digits_of_nat a) e @ rest = ip @ r1"
      and ip: "\<forall>c\<in>set ip. is_digit c" "ip \<noteq> []" "length ip = 1 \<or> hd ip \<noteq> 0x30"
      and r1: "r1 = [] \<or> \<not> is_digit (hd r1)"
      and fr: "json_fraction r1 = Some (fp, r2)"
      and ex: "json_exponent r2 = Some (ex, rest)"
      and nz: "nat_of_digits 0 (ip @ fp) \<noteq> 0"
      and sz: "strip_zeros (nat_of_digits 0 (ip @ fp)) (ex - int (length fp)) = (a, e)"
    unfolding number_parts_def by blast
  note parts = json_number_parts[OF ip r1 fr ex]
  show ?thesis
  proof (cases "m < 0")
    case True
    then have "number_to_string m e @ rest = 0x2D # ip @ r1"
      using eq by (simp add: number_to_string_body[OF m10] a_def S_def)
    with parts(2) nz sz True show ?thesis
      by (simp add: mk_num_def a_def)
  next
    case pos: False
    then have "number_to_string m e @ rest = ip @ r1"
      using eq by (simp add: number_to_string_body[OF m10] a_def)
    with parts(1) nz sz pos show ?thesis
      by (simp add: mk_num_def a_def)
  qed
qed

lemma number_to_string_chars:
  "\<forall>c\<in>set (number_to_string m e). is_digit c \<or> c = 0x2D \<or> c = 0x2E \<or> c = 0x65 \<or> c = 0x2B"
proof -
  obtain a e' where sz: "strip_zeros (nat \<bar>m\<bar>) e = (a, e')"
    by (cases "strip_zeros (nat \<bar>m\<bar>) e")
  have d: "\<And>n c. c \<in> set (digits_of_nat n) \<Longrightarrow> is_digit c"
    using digits_of_nat_digits by blast
  show ?thesis
    by (auto simp: number_to_string_def sz Let_def S_def is_digit_zero
          dest: d in_set_takeD in_set_dropD)
qed

lemma number_to_string_first:
  "number_to_string m e \<noteq> [] \<and>
   (is_digit (hd (number_to_string m e)) \<or> hd (number_to_string m e) = 0x2D)"
proof -
  obtain a e' where sz: "strip_zeros (nat \<bar>m\<bar>) e = (a, e')"
    by (cases "strip_zeros (nat \<bar>m\<bar>) e")
  have ne: "\<And>n. digits_of_nat n \<noteq> []"
    by (rule digits_of_nat_nonempty)
  have hd: "\<And>n. is_digit (hd (digits_of_nat n))"
    using digits_of_nat_digits digits_of_nat_nonempty by (meson hd_in_set)
  show ?thesis
    by (auto simp: number_to_string_def sz Let_def S_def is_digit_zero ne hd hd_append)
qed

subsection \<open>JSON.parse after JSON.stringify\<close>

lemma skip_ws_id: "cs = [] \<or> \<not> is_ws (hd cs) \<Longrightarrow> skip_ws cs = cs"
  by (cases cs) (auto simp: skip_ws_def)

lemma delimited_skip_ws: "delimited r \<Longrightarrow> skip_ws r = r"
  by (rule skip_ws_id) (auto simp: delimited_def is_ws_def split: list.splits)

lemma delimited_cons: "delimited (0x2C # r)" "delimited (0x5D # r)" "delimited (0x7D # r)"
  by (simp_all add: delimited_def)

lemma value_start_props:
  "value_start c \<Longrightarrow> \<not> is_ws c \<and> c \<noteq> 0x5D \<and> c \<noteq> 0x7D"
  by (auto simp: value_start_def is_ws_def is_digit_def)

lemma stringify_None: "JSON_stringify v = None \<longleftrightarrow> v = JUndefined"
  by (cases v) simp_all

lemma json_value_stringify: "json_value v \<Longrightarrow> JSON_stringify v = Some (jtext v)"
  by (cases v) (simp_all add: jtext_def)

lemma jtext_simps:
  "jtext JNull = S ''null''"
  "jtext (JBool b) = (if b then S ''true'' else S ''false'')"
  "jtext (JNum m e) = number_to_string m e"
  "jtext (JStr s) = json_quote s"
  "jtext (JArr vs) = 0x5B # join (S '','') (map jtext vs) @ [0x5D]"
  by (simp_all add: jtext_def S_def cong: map_cong)

lemma jtext_obj:
  assumes "list_all (\<lambda>p. json_value (snd p)) ps"
  shows "jtext (JObj ps) = 0x7B # join (S '','') (map member_text ps) @ [0x7D]"
proof -
  from assms have "concat (map (\<lambda>(k, v). case JSON_stringify v of
                                        None \<Rightarrow> []
                                      | Some t \<Rightarrow> [json_quote k @ S '':'' @ t]) ps)
        = map member_text ps"
    by (induction ps) (auto simp: member_text_def json_value_stringify)
  then show ?thesis
    by (simp add: jtext_def S_def)
qed

lemma parse_null: "parse_value (Suc n) (S ''null'' @ rest) = Ok JNull rest"
  by (simp add: S_def skip_ws_def is_ws_def)

lemma parse_true: "parse_value (Suc n) (S ''true'' @ rest) = Ok (JBool True) rest"
  by (simp add: S_def skip_ws_def is_ws_def)

lemma parse_false: "parse_value (Suc n) (S ''false'' @ rest) = Ok (JBool False) rest"
  by (simp add: S_def skip_ws_def is_ws_def)

lemma parse_string: "parse_value (Suc n) (json_quote s @ rest) = Ok (JStr s) rest"
  using json_string_quote_units[of s rest]
  by (simp add: json_quote_def skip_ws_def is_ws_def del: json_string.simps)

lemma parse_number_start:
  assumes "cs \<noteq> []" and "is_digit (hd cs) \<or> hd cs = 0x2D"
  shows "parse_value (Suc n) cs = (case json_number cs of None \<Rightarrow> Fail | Some (v, r) \<Rightarrow> Ok v r)"
proof -
  from assms obtain c r where cs: "cs = c # r" and c: "is_digit c \<or> c = 0x2D"
    by (cases cs) auto
  from c have "\<not> is_ws c" "c \<noteq> 0x5B" "c \<noteq> 0x7B" "c \<noteq> 0x22" "c \<noteq> 0x74" "c \<noteq> 0x66" "c \<noteq> 0x6E"
    by (auto simp: is_digit_def is_ws_def)
  then show ?thesis
    by (simp add: cs skip_ws_def S_def)
qed

lemma parse_number:
  assumes "(m = 0 \<and> e = 0) \<or> m mod 10 \<noteq> 0" and "delimited rest"
  shows "parse_value (Suc n) (number_to_string m e @ rest) = Ok (JNum m e) rest"
proof -
  from number_to_string_first[of m e]
  have "number_to_string m e @ rest \<noteq> []"
    and "is_digit (hd (number_to_string m e @ rest)) \<or> hd (number_to_string m e @ rest) = 0x2D"
    by simp_all
  from parse_number_start[OF this] json_number_round_trip[OF assms] show ?thesis
    by simp
qed

lemma update_fresh: "k \<notin> fst ` set acc \<Longrightarrow> AList.update k v acc = acc @ [(k, v)]"
  by (induction acc) auto

lemma hd_join:
  "xs \<noteq> [] \<Longrightarrow> hd xs \<noteq> [] \<Longrightarrow> hd (join sep xs @ r) = hd (hd xs)"
  by (cases xs; cases "tl xs") auto

lemma parse_elements_texts:
  assumes "\<forall>v\<in>set vs. parses v"
    and "vs \<noteq> []"
    and "2 * length (join (S '','') (map jtext vs)) + 2 < n"
  shows "parse_elements n (join (S '','') (map jtext vs) @ 0x5D # rest) acc
         = Ok (JArr (acc @ vs)) rest"
  using assms
proof (induction vs arbitrary: n acc)
  case Nil
  then show ?case by simp
next
  case (Cons v vs)
  from Cons.prems(3) obtain n' where n: "n = Suc n'"
    by (cases n) auto
  from Cons.prems(1) have v: "parses v"
    by simp
  show ?case
  proof (cases vs)
    case Nil
    from Cons.prems(3) have "2 * length (jtext v) < n'"
      by (simp add: n Nil)
    with v have "parse_value n' (jtext v @ 0x5D # rest) = Ok v (0x5D # rest)"
      by (simp add: parses_def delimited_cons)
    then show ?thesis
      by (simp add: n Nil delimited_skip_ws delimited_cons)
  next
    case (Cons w ws)
    define more where "more = join (S '','') (map jtext (w # ws)) @ 0x5D # rest"
    have shape: "join (S '','') (map jtext (v # vs)) @ 0x5D # rest = jtext v @ 0x2C # more"
      by (simp add: Cons more_def S_def)
    from Cons.prems(3) have fuel: "2 * length (jtext v) < n'"
      and fuel': "2 * length (join (S '','') (map jtext vs)) + 2 < n'"
      by (simp_all add: n Cons S_def)
    from v fuel have "parse_value n' (jtext v @ 0x2C # more) = Ok v (0x2C # more)"
      by (simp add: parses_def delimited_cons)
    moreover have "parse_elements n' more (acc @ [v]) = Ok (JArr ((acc @ [v]) @ vs)) rest"
      unfolding more_def Cons[symmetric]
      using Cons.prems(1) Cons fuel' by (intro Cons.IH) simp_all
    ultimately show ?thesis
      unfolding shape by (simp add: n delimited_skip_ws delimited_cons)
  qed
qed

lemma parses_array:
  assumes "\<forall>v\<in>set vs. parses v \<and> jtext v \<noteq> [] \<and> value_start (hd (jtext v))"
  shows "parses (JArr vs)"
  unfolding parses_def
proof (intro allI impI)
  fix n rest
  assume fuel: "2 * length (jtext (JArr vs)) < n" and "delimited rest"
  then obtain n' where n: "n = Suc n'"
    by (cases n) auto
  define r where "r = join (S '','') (map jtext vs) @ 0x5D # rest"
  have shape: "jtext (JArr vs) @ rest = 0x5B # r"
    by (simp add: jtext_simps r_def)
  show "parse_value n (jtext (JArr vs) @ rest) = Ok (JArr vs) rest"
  proof (cases vs)
    case Nil
    with shape show ?thesis
      by (simp add: n r_def skip_ws_def is_ws_def)
  next
    case (Cons v ws)
    with assms have v: "jtext v \<noteq> []" "value_start (hd (jtext v))"
      by simp_all
    have hdr: "hd r = hd (jtext v)" and ne: "r \<noteq> []"
      using v(1) hd_join[of "map jtext vs" "S '',''" "0x5D # rest"] by (simp_all add: r_def Cons)
    then obtain d r' where r: "r = d # r'" and d: "d = hd (jtext v)"
      by (cases r) auto
    from value_start_props[OF v(2)] d have d': "\<not> is_ws d" "d \<noteq> 0x5D"
      by simp_all
    from fuel have "2 * length (join (S '','') (map jtext vs)) + 2 < n'"
      by (simp add: jtext_simps n)
    with assms Cons have "parse_elements n' r [] = Ok (JArr ([] @ vs)) rest"
      unfolding r_def by (intro parse_elements_texts) simp_all
    moreover have "skip_ws r = r"
      using d' r by (intro skip_ws_id) simp
    moreover have "skip_ws (0x5B # r) = 0x5B # r"
      by (intro skip_ws_id) (simp add: is_ws_def)
    ultimately show ?thesis
      using d'(2) by (simp add: shape n r)
  qed
qed

lemma parse_members_texts:
  assumes "\<forall>p\<in>set ps. parses (snd p)"
    and "distinct (map fst ps)"
    and "fst ` set ps \<inter> fst ` set acc = {}"
    and "ps \<noteq> []"
    and "2 * length (join (S '','') (map member_text ps)) + 2 < n"
  shows "parse_members n (join (S '','') (map member_text ps) @ 0x7D # rest) acc
         = Ok (JObj (acc @ ps)) rest"
  using assms
proof (induction ps arbitrary: n acc)
  case Nil
  then show ?case by simp
next
  case (Cons p ps)
  obtain k v where p: "p = (k, v)"
    by (cases p)
  from Cons.prems(5) obtain n' where n: "n = Suc n'"
    by (cases n) auto
  from Cons.prems(1) have v: "parses v"
    by (simp add: p)
  from Cons.prems(3) have fresh: "k \<notin> fst ` set acc"
    by (auto simp: p)
  have member: "\<And>r. member_text (k, v) @ r = 0x22 # quote_units k @ 0x22 # 0x3A # jtext v @ r"
    by (simp add: member_text_def json_quote_def S_def)
  have key: "\<And>r. json_string (quote_units k @ 0x22 # r) = Some (k, r)"
    by (rule json_string_quote_units)
  have ws: "\<And>r. skip_ws (0x22 # r) = 0x22 # r" "\<And>r. skip_ws (0x3A # r) = 0x3A # r"
    by (simp_all add: skip_ws_def is_ws_def)
  show ?case
  proof (cases ps)
    case Nil
    from Cons.prems(5) have "2 * length (jtext v) < n'"
      by (simp add: n Nil member_text_def p)
    with v have "parse_value n' (jtext v @ 0x7D # rest) = Ok v (0x7D # rest)"
      by (simp add: parses_def delimited_cons)
    then show ?thesis
      using fresh
      by (simp add: n Nil p member ws key delimited_skip_ws delimited_cons update_fresh
            del: json_string.simps)
  next
    case (Cons q qs)
    define more where "more = join (S '','') (map member_text (q # qs)) @ 0x7D # rest"
    have shape: "join (S '','') (map member_text (p # ps)) @ 0x7D # rest
                = 0x22 # quote_units k @ 0x22 # 0x3A # jtext v @ 0x2C # more"
      using member[of "0x2C # more"] by (simp add: Cons more_def S_def p)
    from Cons.prems(5) have fuel': "2 * length (join (S '','') (map member_text ps)) + 2 < n'"
      by (simp add: n Cons S_def)
    from Cons.prems(5) have fuel: "2 * length (jtext v) < n'"
      by (simp add: n Cons S_def member_text_def p)
    from v fuel have pv: "parse_value n' (jtext v @ 0x2C # more) = Ok v (0x2C # more)"
      by (simp add: parses_def delimited_cons)
    from Cons.prems(2,3) have disj: "fst ` set ps \<inter> fst ` set (acc @ [(k, v)]) = {}"
      by (auto simp: p)
    have "parse_members n' more (acc @ [(k, v)]) = Ok (JObj ((acc @ [(k, v)]) @ ps)) rest"
      unfolding more_def Cons[symmetric]
      using Cons.prems(1,2) Cons fuel' disj by (intro Cons.IH) simp_all
    with pv fresh show ?thesis
      unfolding shape
      by (simp add: n ws key delimited_skip_ws delimited_cons update_fresh p
            del: json_string.simps)
  qed
qed

lemma parses_object:
  assumes "list_all (\<lambda>p. json_value (snd p)) ps"
    and "\<forall>p\<in>set ps. parses (snd p)"
    and "distinct (map fst ps)"
  shows "parses (JObj ps)"
  unfolding parses_def
proof (intro allI impI)
  fix n rest
  assume fuel: "2 * length (jtext (JObj ps)) < n" and "delimited rest"
  then obtain n' where n: "n = Suc n'"
    by (cases n) auto
  define r where "r = join (S '','') (map member_text ps) @ 0x7D # rest"
  have shape: "jtext (JObj ps) @ rest = 0x7B # r"
    by (simp add: jtext_obj[OF assms(1)] r_def)
  have open_ws: "skip_ws (0x7B # r) = 0x7B # r"
    by (intro skip_ws_id) (simp add: is_ws_def)
  show "parse_value n (jtext (JObj ps) @ rest) = Ok (JObj ps) rest"
  proof (cases ps)
    case Nil
    with shape have "jtext (JObj ps) @ rest = 0x7B # 0x7D # rest"
      by (simp add: r_def)
    moreover have "skip_ws (0x7D # rest) = 0x7D # rest"
      and "skip_ws (0x7B # 0x7D # rest) = 0x7B # 0x7D # rest"
      by (simp_all add: skip_ws_def is_ws_def)
    ultimately show ?thesis
      using Nil by (simp add: n)
  next
    case (Cons p qs)
    have "member_text p \<noteq> []" and "hd (member_text p) = 0x22"
      by (simp_all add: member_text_def json_quote_def)
    with hd_join[of "map member_text ps" "S '',''" "0x7D # rest"]
    have "r \<noteq> []" and "hd r = 0x22"
      by (simp_all add: r_def Cons)
    then obtain r' where r: "r = 0x22 # r'"
      by (cases r) auto
    have sk: "skip_ws r = r"
      unfolding r by (intro skip_ws_id) (simp add: is_ws_def)
    from fuel have "2 * length (join (S '','') (map member_text ps)) + 2 < n'"
      by (simp add: jtext_obj[OF assms(1)] n)
    with assms Cons have "parse_members n' r [] = Ok (JObj ([] @ ps)) rest"
      unfolding r_def by (intro parse_members_texts) simp_all
    moreover have "skip_ws (0x7B # 0x22 # r') = 0x7B # 0x22 # r'"
      by (simp add: skip_ws_def is_ws_def)
    ultimately show ?thesis
      using sk by (simp add: shape n r)
  qed
qed

lemma json_value_parses:
  "json_value v \<Longrightarrow> parses v \<and> jtext v \<noteq> [] \<and> value_start (hd (jtext v))"
proof (induction v)
  case JUndefined
  then show ?case by simp
next
  case JNull
  have "\<And>n rest. 0 < n \<Longrightarrow> parse_value n (S ''null'' @ rest) = Ok JNull rest"
    using parse_null by (metis Suc_pred)
  then show ?case
    by (simp add: parses_def jtext_simps) (simp add: S_def value_start_def)
next
  case (JBool b)
  have "\<And>n rest. 0 < n \<Longrightarrow> parse_value n (S ''true'' @ rest) = Ok (JBool True) rest"
    and "\<And>n rest. 0 < n \<Longrightarrow> parse_value n (S ''false'' @ rest) = Ok (JBool False) rest"
    using parse_true parse_false by (metis Suc_pred)+
  then show ?case
    by (cases b) (simp_all add: parses_def jtext_simps, simp_all add: S_def value_start_def)
next
  case (JNum m e)
  then have norm: "(m = 0 \<and> e = 0) \<or> m mod 10 \<noteq> 0"
    by simp
  have "\<And>n rest. 0 < n \<Longrightarrow> delimited rest \<Longrightarrow>
          parse_value n (number_to_string m e @ rest) = Ok (JNum m e) rest"
    using parse_number[OF norm] by (metis Suc_pred)
  then show ?case
    using number_to_string_first[of m e]
    by (auto simp: parses_def jtext_simps value_start_def)
next
  case JNegZero
  then show ?case by simp
next
  case (JStr s)
  have "\<And>n rest. 0 < n \<Longrightarrow> parse_value n (json_quote s @ rest) = Ok (JStr s) rest"
    using parse_string by (metis Suc_pred)
  then show ?case
    by (simp add: parses_def jtext_simps) (simp add: json_quote_def value_start_def)
next
  case (JArr vs)
  then have "\<forall>v\<in>set vs. parses v \<and> jtext v \<noteq> [] \<and> value_start (hd (jtext v))"
    by (simp add: list_all_iff)
  from parses_array[OF this] show ?case
    by (simp add: jtext_simps value_start_def)
next
  case (JObj ps)
  then have vals: "list_all (\<lambda>p. json_value (snd p)) ps" and dist: "distinct (map fst ps)"
    by simp_all
  have "\<forall>p\<in>set ps. parses (snd p)"
  proof
    fix p assume p: "p \<in> set ps"
    with vals have "json_value (snd p)"
      by (simp add: list_all_iff)
    moreover have "snd p \<in> Basic_BNFs.snds p"
      by (cases p) simp
    ultimately show "parses (snd p)"
      using JObj.IH[OF p] by blast
  qed
  from parses_object[OF vals this dist] show ?case
    by (simp add: jtext_obj[OF vals] value_start_def)
qed

lemma JSON_parse_jtext: "json_value v \<Longrightarrow> JSON_parse (jtext v) = Inr v"
proof -
  assume "json_value v"
  then have "parses v"
    by (simp add: json_value_parses)
  from this[unfolded parses_def, rule_format, of "2 * length (jtext v) + 1" "[]"]
  have "parse_value (2 * length (jtext v) + 1) (jtext v) = Ok v []"
    by (simp add: delimited_def del: parse_value.simps)
  then show ?thesis
    by (simp add: JSON_parse_def skip_ws_def del: parse_value.simps)
qed

section \<open>Properties of the query codec\<close>

subsection \<open>The loop over the pairs\<close>

lemma ToString_primitive: "typeof v \<noteq> ''object'' \<Longrightarrow> \<exists>t. ToString v = Inr t"
  by (cases v) simp_all

lemma split_not_Nil: "split sep cs \<noteq> []"
  by (induction cs) (auto split: list.splits)

lemma element_split_0: "element (split sep cs) 0 = JStr (hd (split sep cs))"
  using split_not_Nil[of sep cs] by (cases "split sep cs") (simp_all add: element_def)

lemma assign_string: "assign (JStr k) v obj = Inr (set_property k v obj)"
  by (simp add: assign_def)

lemma queryParam_pair_eq:
  "queryParam_pair params kv =
     (if kv = [] then Inr params
      else case decoded_value (pair_value kv) of
             Inl e \<Rightarrow> Inl e
           | Inr x \<Rightarrow> Inr (set_property (pair_key kv) x params))"
  by (simp add: queryParam_pair_def decoded_value_def pair_key_def pair_value_def Let_def
           element_split_0 assign_string split: sum.splits)

lemma set_property_plain:
  "k \<noteq> S ''__proto__'' \<Longrightarrow>
   set_property k v obj = obj\<lparr>properties := AList.update k v (properties obj)\<rparr>"
  by (simp add: set_property_def)

lemma properties_proto_setter: "properties (proto_setter v obj) = properties obj"
  by (cases v) (simp_all add: proto_setter_def)

lemma properties_set_property:
  "properties (set_property k v obj) = properties obj
   \<or> properties (set_property k v obj) = AList.update k v (properties obj)"
  by (simp add: set_property_def properties_proto_setter)

lemma forEach_append:
  "forEach f (xs @ ys) s =
     (case forEach f xs s of Inl e \<Rightarrow> Inl e | Inr s' \<Rightarrow> forEach f ys s')"
  by (induction xs arbitrary: s) (auto split: sum.splits)


lemma forEach_pairs_other_keys:
  "forEach queryParam_pair kvs obj0 = Inr obj
   \<Longrightarrow> \<forall>q\<in>set kvs. q = [] \<or> pair_key q \<noteq> k
   \<Longrightarrow> map_of (properties obj) k = map_of (properties obj0) k"
proof (induction kvs arbitrary: obj0)
  case Nil
  then show ?case by simp
next
  case (Cons kv kvs)
  from Cons.prems(1) obtain obj1 where step: "queryParam_pair obj0 kv = Inr obj1"
    and rest: "forEach queryParam_pair kvs obj1 = Inr obj"
    by (auto split: sum.splits)
  have "map_of (properties obj1) k = map_of (properties obj0) k"
  proof (cases "kv = []")
    case True
    with step show ?thesis by (simp add: queryParam_pair_eq)
  next
    case False
    with step obtain x where "obj1 = set_property (pair_key kv) x obj0"
      by (auto simp: queryParam_pair_eq split: sum.splits)
    moreover from False Cons.prems(2) have "pair_key kv \<noteq> k" by simp
    ultimately show ?thesis
      using properties_set_property[of "pair_key kv" x obj0] by (auto simp: update_conv')
  qed
  moreover from Cons.prems(2) have "\<forall>q\<in>set kvs. q = [] \<or> pair_key q \<noteq> k" by simp
  note Cons.IH[OF rest this]
  ultimately show ?case by simp
qed

lemma forEach_pairs_last:
  assumes "forEach queryParam_pair (pre @ kv # post) obj0 = Inr obj"
    and "kv \<noteq> []"
    and "pair_key kv \<noteq> S ''__proto__''"
    and "\<forall>q\<in>set post. q = [] \<or> pair_key q \<noteq> pair_key kv"
  shows "\<exists>x. decoded_value (pair_value kv) = Inr x
           \<and> map_of (properties obj) (pair_key kv) = Some x"
proof -
  from assms(1) obtain obj1 where "forEach queryParam_pair (kv # post) obj1 = Inr obj"
    by (auto simp: forEach_append split: sum.splits)
  with assms(2) obtain x where x: "decoded_value (pair_value kv) = Inr x"
    and rest: "forEach queryParam_pair post (set_property (pair_key kv) x obj1) = Inr obj"
    by (auto simp: queryParam_pair_eq split: sum.splits)
  from forEach_pairs_other_keys[OF rest assms(4)]
  have "map_of (properties obj) (pair_key kv) = Some x"
    by (simp add: set_property_plain[OF assms(3)] update_conv')
  with x show ?thesis by simp
qed


lemma queryParam_all_pairs:
  "queryParam None source = Inr v \<Longrightarrow>
   \<exists>obj. v = JObj (properties obj)
     \<and> forEach queryParam_pair (split 0x26 (query_string source))
           \<lparr>properties = [], prototype = ObjectPrototype\<rparr> = Inr obj"
  by (auto simp: queryParam_def split: sum.splits)

lemma split_no_separator: "sep \<notin> set cs \<Longrightarrow> split sep cs = [cs]"
  by (induction cs) auto

lemma decoded_undefined: "decoded_value JUndefined = Inr (JStr (S ''undefined''))"
  by code_simp

lemma map_throwing_Inr: "map_throwing f xs = Inr ys \<Longrightarrow> ys = map (\<lambda>x. projr (f x)) xs"
  by (induction xs arbitrary: ys) (auto split: sum.splits)

subsection \<open>Parsing a query string\<close>

text \<open>
  C2, as the code has it: parsing the query string \<open>a=1&b=hello&c=\<close> (the part of the
  URL after \<open>?\<close>) yields the three keys \<open>a\<close>, \<open>b\<close> and \<open>c\<close>: \<open>a\<close> is the number 1,
  \<open>b\<close> the string \<open>hello\<close>, and the trailing pair \<open>c=\<close> is not empty, so the guard of
  the loop lets it pass and it gives the key \<open>c\<close> with the empty string as its value.
\<close>

theorem queryParam_trailing_empty_value:
  "queryParam None (S ''?a=1&b=hello&c='') =
     Inr (JObj [(S ''a'', JNum 1 0), (S ''b'', JStr (S ''hello'')), (S ''c'', JStr [])])
   \<and> own_keys (JObj [(S ''a'', JNum 1 0), (S ''b'', JStr (S ''hello'')), (S ''c'', JStr [])])
       = {S ''a'', S ''b'', S ''c''}"
proof -
  have "queryParam None (S ''?a=1&b=hello&c='') =
     Inr (JObj [(S ''a'', JNum 1 0), (S ''b'', JStr (S ''hello'')), (S ''c'', JStr [])])"
    by code_simp
  then show ?thesis by (auto simp: own_keys_def)
qed

text \<open>
  C2 as stated fails: the key set of the result is not \<open>{a, b}\<close>, it holds \<open>c\<close> too.
  (Passing the bare text without \<open>?\<close> as the source gives no key at all.)
\<close>

theorem queryParam_trailing_pair_counterexample:
  "queryParam None (S ''?a=1&b=hello&c='') =
     Inr (JObj [(S ''a'', JNum 1 0), (S ''b'', JStr (S ''hello'')), (S ''c'', JStr [])])
   \<and> S ''c'' \<in> own_keys (JObj [(S ''a'', JNum 1 0), (S ''b'', JStr (S ''hello'')), (S ''c'', JStr [])])
   \<and> S ''c'' \<notin> {S ''a'', S ''b''}
   \<and> queryParam None (S ''a=1&b=hello&c='') = Inr (JObj [])"
proof -
  have 1: "queryParam None (S ''?a=1&b=hello&c='') =
     Inr (JObj [(S ''a'', JNum 1 0), (S ''b'', JStr (S ''hello'')), (S ''c'', JStr [])])"
    by code_simp
  have 2: "queryParam None (S ''a=1&b=hello&c='') = Inr (JObj [])"
    by code_simp
  from 1 2 show ?thesis by (simp add: own_keys_def S_def)
qed

text \<open>
  C3 at the pair \<open>a=b=c\<close>: \<open>kv.split('=')\<close> cuts at every \<open>=\<close> and the destructuring
  keeps the first two pieces, so the key \<open>a\<close> gets the value \<open>b\<close>; the remainder \<open>b=c\<close>
  that a split on the first \<open>=\<close> would give is not what the code stores.
\<close>

theorem queryParam_value_cut_at_second_equals:
  "queryParam None (S ''?a=b=c'') = Inr (JObj [(S ''a'', JStr (S ''b''))])
   \<and> JStr (S ''b'') \<noteq> JStr (S ''b=c'')"
proof -
  have "queryParam None (S ''?a=b=c'') = Inr (JObj [(S ''a'', JStr (S ''b''))])"
    by code_simp
  then show ?thesis by (simp add: S_def)
qed

text \<open>
  C4, as the code has it: a non-empty pair without \<open>=\<close> is its own key, the destructured
  value is \<open>undefined\<close>, \<open>decodeURIComponent\<close> turns that into the string \<open>undefined\<close>,
  which is not JSON, so the key is mapped to the string \<open>undefined\<close> (not to the value
  \<open>undefined\<close>) in every mapping that \<open>queryParam\<close> returns, unless a later pair has the
  same key. The pair \<open>__proto__\<close> is set apart: the assignment to that key runs the setter
  of \<open>Object.prototype\<close> and stores nothing.
\<close>

theorem queryParam_pair_without_equals:
  assumes "queryParam None source = Inr (JObj ps)"
    and "split 0x26 (query_string source) = pre @ kv # post"
    and "kv \<noteq> []"
    and "0x3D \<notin> set kv"
    and "kv \<noteq> S ''__proto__''"
    and "\<forall>q\<in>set post. q = [] \<or> pair_key q \<noteq> kv"
  shows "map_of ps kv = Some (JStr (S ''undefined''))"
proof -
  from assms(4) have key: "pair_key kv = kv" and val: "pair_value kv = JUndefined"
    by (simp_all add: pair_key_def pair_value_def element_def split_no_separator)
  from queryParam_all_pairs[OF assms(1)] assms(2) obtain obj
    where ps: "ps = properties obj"
      and run: "forEach queryParam_pair (pre @ kv # post)
                  \<lparr>properties = [], prototype = ObjectPrototype\<rparr> = Inr obj"
    by auto
  from assms(5) key have plain: "pair_key kv \<noteq> S ''__proto__''"
    by simp
  from assms(6) key have "\<forall>q\<in>set post. q = [] \<or> pair_key q \<noteq> pair_key kv"
    by simp
  from forEach_pairs_last[OF run assms(3) plain this] show ?thesis
    by (simp add: key val decoded_undefined ps)
qed

theorem queryParam_pair_without_equals_witness:
  "queryParam None (S ''?foo&a=1'') =
     Inr (JObj [(S ''foo'', JStr (S ''undefined'')), (S ''a'', JNum 1 0)])
   \<and> split 0x26 (query_string (S ''?foo&a=1'')) = [] @ S ''foo'' # [S ''a=1'']
   \<and> S ''foo'' \<noteq> [] \<and> 0x3D \<notin> set (S ''foo'') \<and> S ''foo'' \<noteq> S ''__proto__''
   \<and> pair_key (S ''a=1'') = S ''a'' \<and> S ''a'' \<noteq> S ''foo''
   \<and> map_of [(S ''foo'', JStr (S ''undefined'')), (S ''a'', JNum 1 0)] (S ''foo'')
       = Some (JStr (S ''undefined''))"
proof -
  have 1: "queryParam None (S ''?foo&a=1'') =
     Inr (JObj [(S ''foo'', JStr (S ''undefined'')), (S ''a'', JNum 1 0)])"
    by code_simp
  have 2: "split 0x26 (query_string (S ''?foo&a=1'')) = [] @ S ''foo'' # [S ''a=1'']"
    by code_simp
  have 3: "S ''foo'' \<noteq> []" and 4: "0x3D \<notin> set (S ''foo'')"
    and p: "S ''foo'' \<noteq> S ''__proto__''"
    by (simp_all add: S_def)
  have k: "pair_key (S ''a=1'') = S ''a''"
    by code_simp
  have ne: "S ''a'' \<noteq> S ''foo''"
    by (simp add: S_def)
  from k ne have 5: "\<forall>q\<in>set [S ''a=1'']. q = [] \<or> pair_key q \<noteq> S ''foo''"
    by simp
  from queryParam_pair_without_equals[OF 1 2 3 4 p 5] 1 2 3 4 p k ne show ?thesis
    by simp
qed

text \<open>
  C4 as stated fails at \<open>foo&a=1\<close>: the key \<open>foo\<close> holds a string, not \<open>undefined\<close>.
\<close>

theorem queryParam_missing_equals_counterexample:
  "queryParam None (S ''?foo&a=1'') =
     Inr (JObj [(S ''foo'', JStr (S ''undefined'')), (S ''a'', JNum 1 0)])
   \<and> get_property [(S ''foo'', JStr (S ''undefined'')), (S ''a'', JNum 1 0)] (S ''foo'')
       \<noteq> JUndefined"
proof -
  have "queryParam None (S ''?foo&a=1'') =
     Inr (JObj [(S ''foo'', JStr (S ''undefined'')), (S ''a'', JNum 1 0)])"
    by code_simp
  then show ?thesis by (simp add: get_property_def)
qed




subsection \<open>Serialising a mapping\<close>

text \<open>
  C10: \<open>params2query\<close> percent-encodes the values and never the keys. Whenever it returns,
  its result is the pairs joined by \<open>&\<close>, each pair the key as it is, then \<open>=\<close>, then the
  encoded text of the value. So a key holding \<open>&\<close> or \<open>=\<close> is emitted verbatim and the
  query string no longer parses to the mapping: the key \<open>a&b=c\<close> with the value 1
  gives \<open>a&b=c=1\<close>, which reads back as two other keys.
\<close>

theorem params2query_keys_verbatim:
  "(params2query p = Inr q \<longrightarrow>
      q = join (S ''&'')
            (map (\<lambda>kv. fst kv @ S ''='' @ projr (encodeURIComponent (value_text (snd kv)))) p))
   \<and> params2query [(S ''a&b=c'', JNum 1 0)] = Inr (S ''a&b=c=1'')
   \<and> queryParam None (S ''?a&b=c=1'') =
       Inr (JObj [(S ''a'', JStr (S ''undefined'')), (S ''b'', JStr (S ''c''))])"
proof -
  have general: "params2query p = Inr q \<longrightarrow>
      q = join (S ''&'')
            (map (\<lambda>kv. fst kv @ S ''='' @ projr (encodeURIComponent (value_text (snd kv)))) p)"
  proof
    assume "params2query p = Inr q"
    then obtain pairs where pairs: "map_throwing params2query_pair p = Inr pairs"
      and q: "q = join (S ''&'') pairs"
      by (auto simp: params2query_def split: sum.splits)
    from pairs have ok: "\<forall>kv\<in>set p. \<exists>t. params2query_pair kv = Inr t"
      by (induction p arbitrary: pairs) (auto split: sum.splits)
    have "map (\<lambda>x. projr (params2query_pair x)) p =
          map (\<lambda>kv. fst kv @ S ''='' @ projr (encodeURIComponent (value_text (snd kv)))) p"
    proof (rule map_cong[OF refl])
      fix kv assume "kv \<in> set p"
      with ok obtain t where "params2query_pair kv = Inr t" by blast
      then show "projr (params2query_pair kv) =
                 fst kv @ S ''='' @ projr (encodeURIComponent (value_text (snd kv)))"
        by (auto simp: params2query_pair_def split: sum.splits)
    qed
    with map_throwing_Inr[OF pairs] q show
      "q = join (S ''&'')
            (map (\<lambda>kv. fst kv @ S ''='' @ projr (encodeURIComponent (value_text (snd kv)))) p)"
      by simp
  qed
  have ex1: "params2query [(S ''a&b=c'', JNum 1 0)] = Inr (S ''a&b=c=1'')"
    by code_simp
  have ex2: "queryParam None (S ''?a&b=c=1'') =
       Inr (JObj [(S ''a'', JStr (S ''undefined'')), (S ''b'', JStr (S ''c''))])"
    by code_simp
  from general ex1 ex2 show ?thesis by blast
qed

theorem params2query_keys_verbatim_witness:
  "params2query [(S ''a b'', JStr (S ''x y'')), (S ''k'', JBool True)] = Inr (S ''a b=x%20y&k=true'')
   \<and> S ''a b=x%20y&k=true'' =
       join (S ''&'')
         (map (\<lambda>kv. fst kv @ S ''='' @ projr (encodeURIComponent (value_text (snd kv))))
            [(S ''a b'', JStr (S ''x y'')), (S ''k'', JBool True)])"
proof -
  have 1: "params2query [(S ''a b'', JStr (S ''x y'')), (S ''k'', JBool True)]
           = Inr (S ''a b=x%20y&k=true'')"
    by code_simp
  from params2query_keys_verbatim[of "[(S ''a b'', JStr (S ''x y'')), (S ''k'', JBool True)]"
      "S ''a b=x%20y&k=true''"] 1
  show ?thesis by blast
qed

subsection \<open>Serialising and parsing again\<close>

subsection \<open>Texts are well-formed UTF-16\<close>

lemma code_points_append:
  "code_points xs = Some a \<Longrightarrow> code_points (xs @ ys) = map_option ((@) a) (code_points ys)"
proof (induction xs arbitrary: a rule: code_points.induct)
  case 1
  then show ?case by (simp add: option.map_ident)
next
  case (2 c cs)
  show ?case
  proof (cases "is_high_surrogate c")
    case True
    with "2.prems" obtain d ds rest where cs: "cs = d # ds" and d: "is_low_surrogate d"
      and rest: "code_points ds = Some rest" and a: "a = surrogate_pair c d # rest"
      by (auto split: list.splits if_splits)
    from "2.IH"(1)[OF True cs d rest] True d show ?thesis
      by (simp add: cs a option.map_comp comp_def)
  next
    case False
    with "2.prems" obtain rest where low: "\<not> is_low_surrogate c"
      and rest: "code_points cs = Some rest" and a: "a = unat c # rest"
      by (auto split: if_splits)
    from "2.IH"(2)[OF False low rest] False low show ?thesis
      by (simp add: a option.map_comp comp_def)
  qed
qed

lemma well_formed_append: "well_formed xs \<Longrightarrow> well_formed ys \<Longrightarrow> well_formed (xs @ ys)"
  by (auto simp: well_formed_def code_points_append)

lemma well_formed_Nil: "well_formed []"
  by (simp add: well_formed_def)

lemma well_formed_no_surrogates:
  "\<forall>c\<in>set s. \<not> is_high_surrogate c \<and> \<not> is_low_surrogate c \<Longrightarrow> well_formed s"
  by (induction s) (auto simp: well_formed_def)

lemma well_formed_ascii: "\<forall>c\<in>set s. c < 0x80 \<Longrightarrow> well_formed s"
  by (rule well_formed_no_surrogates)
     (auto simp: is_high_surrogate_def is_low_surrogate_def word_le_nat_alt word_less_nat_alt)

lemma well_formed_Cons: "c < 0x80 \<Longrightarrow> well_formed s \<Longrightarrow> well_formed (c # s)"
  using well_formed_append[of "[c]" s] well_formed_ascii[of "[c]"] by simp

lemma hex_char_lower_ascii: "d < 16 \<Longrightarrow> hex_char_lower d < 0x80"
  using unat_of_nat16[of "48 + d"] unat_of_nat16[of "87 + d"]
  by (auto simp: hex_char_lower_def word_less_nat_alt)

lemma well_formed_quote_unit: "well_formed (quote_unit c)"
proof (cases "c < 0x20 \<or> is_high_surrogate c \<or> is_low_surrogate c")
  case True
  have "unat c div 4096 < 16"
    using unat_lt_65536[of c] by simp
  then have "well_formed (unicode_escape c)"
    by (intro well_formed_ascii) (simp add: unicode_escape_def hex_char_lower_ascii)
  moreover have "well_formed [0x5C, b]" if "b < 0x80" for b :: "16 word"
    using that by (intro well_formed_ascii) simp
  ultimately show ?thesis
    using True by (simp add: quote_unit_def)
next
  case False
  then have "well_formed [c]"
    by (intro well_formed_no_surrogates) simp
  moreover have "well_formed [0x5C, b]" if "b < 0x80" for b :: "16 word"
    using that by (intro well_formed_ascii) simp
  ultimately show ?thesis
    using False by (simp add: quote_unit_def)
qed

lemma well_formed_quote_units: "well_formed (quote_units s)"
proof (induction s rule: quote_units.induct)
  case 1
  then show ?case by (simp add: well_formed_Nil)
next
  case (2 c)
  then show ?case by (simp add: well_formed_quote_unit)
next
  case (3 c d ds)
  show ?case
  proof (cases "is_high_surrogate c \<and> is_low_surrogate d")
    case True
    with "3.IH"(1)[OF True] show ?thesis
      by (auto simp: well_formed_def)
  next
    case False
    then have "quote_units (c # d # ds) = quote_unit c @ quote_units (d # ds)"
      by auto
    with "3.IH"(2)[OF False] show ?thesis
      by (simp add: well_formed_append well_formed_quote_unit)
  qed
qed

lemma well_formed_json_quote: "well_formed (json_quote s)"
  unfolding json_quote_def
  by (intro well_formed_append well_formed_quote_units well_formed_ascii) simp_all

lemma well_formed_number: "well_formed (number_to_string m e)"
  using number_to_string_chars[of m e]
  by (intro well_formed_ascii) (auto simp: is_digit_def word_le_nat_alt word_less_nat_alt)

lemma well_formed_join:
  "well_formed sep \<Longrightarrow> \<forall>x\<in>set xs. well_formed x \<Longrightarrow> well_formed (join sep xs)"
  by (induction sep xs rule: join.induct) (simp_all add: well_formed_Nil well_formed_append)

lemma well_formed_S_ascii:
  "well_formed (S ''null'')" "well_formed (S ''true'')" "well_formed (S ''false'')"
  "well_formed (S '','')" "well_formed (S '':'')"
  by (simp_all add: S_def well_formed_def is_high_surrogate_def is_low_surrogate_def)

lemma well_formed_jtext: "json_value v \<Longrightarrow> well_formed (jtext v)"
proof (induction v)
  case JUndefined
  then show ?case by simp
next
  case JNull
  show ?case by (simp add: jtext_simps well_formed_S_ascii)
next
  case (JBool b)
  show ?case by (simp add: jtext_simps well_formed_S_ascii)
next
  case (JNum m e)
  show ?case by (simp add: jtext_simps well_formed_number)
next
  case JNegZero
  then show ?case by simp
next
  case (JStr s)
  show ?case by (simp add: jtext_simps well_formed_json_quote)
next
  case (JArr vs)
  then have "\<forall>x\<in>set (map jtext vs). well_formed x"
    by (simp add: list_all_iff)
  then have "well_formed (join (S '','') (map jtext vs))"
    by (intro well_formed_join) (simp_all add: well_formed_S_ascii)
  then show ?case
    using well_formed_append[of "join (S '','') (map jtext vs)" "[0x5D]"]
    by (simp add: jtext_simps well_formed_Cons well_formed_ascii)
next
  case (JObj ps)
  then have vals: "list_all (\<lambda>p. json_value (snd p)) ps"
    by simp
  have "\<forall>x\<in>set (map member_text ps). well_formed x"
  proof
    fix x assume "x \<in> set (map member_text ps)"
    then obtain p where p: "p \<in> set ps" and x: "x = member_text p"
      by auto
    with vals have "json_value (snd p)"
      by (simp add: list_all_iff)
    moreover have "snd p \<in> Basic_BNFs.snds p"
      by (cases p) simp
    ultimately have "well_formed (jtext (snd p))"
      using JObj.IH[OF p] by blast
    then show "well_formed x"
      unfolding x member_text_def
      by (intro well_formed_append well_formed_json_quote well_formed_S_ascii)
  qed
  then have "well_formed (join (S '','') (map member_text ps))"
    by (intro well_formed_join) (simp_all add: well_formed_S_ascii)
  then show ?case
    using well_formed_append[of "join (S '','') (map member_text ps)" "[0x7D]"]
    by (simp add: jtext_obj[OF vals] well_formed_Cons well_formed_ascii)
qed

subsection \<open>split after join\<close>

lemma split_append_separator:
  "sep \<notin> set xs \<Longrightarrow> split sep (xs @ sep # ys) = xs # split sep ys"
  by (induction xs) auto

lemma split_join:
  "xs \<noteq> [] \<Longrightarrow> \<forall>x\<in>set xs. sep \<notin> set x \<Longrightarrow> split sep (join [sep] xs) = xs"
proof (induction "[sep]" xs rule: join.induct)
  case 1
  then show ?case by simp
next
  case (2 x)
  then show ?case by (simp add: split_no_separator)
next
  case (3 x y ys)
  then show ?case by (simp add: split_append_separator)
qed

lemma notin_join:
  "c \<notin> set sep \<Longrightarrow> \<forall>x\<in>set xs. c \<notin> set x \<Longrightarrow> c \<notin> set (join sep xs)"
  by (induction sep xs rule: join.induct) auto

subsection \<open>One entry and its pair\<close>

lemma value_text_json:
  "json_value v \<Longrightarrow> typeof v \<noteq> ''string'' \<Longrightarrow> value_text v = jtext v"
  by (cases v) (simp_all add: value_text_def jtext_def)

lemma value_text_string: "value_text (JStr s) = s"
  by (simp add: value_text_def)

lemma query_value_cases:
  assumes "query_value v"
  obtains s where "v = JStr s" "well_formed s"
  | "json_value v" "typeof v \<noteq> ''string''"
  using assms by (cases v) auto

lemma query_value_encodes:
  assumes "query_value v"
  shows "\<exists>t. encodeURIComponent (value_text v) = Inr t"
proof -
  from assms have "well_formed (value_text v)"
    by (rule query_value_cases) (simp_all add: value_text_string value_text_json well_formed_jtext)
  then show ?thesis
    by (auto simp: well_formed_def encodeURIComponent_def)
qed

lemma decoded_value_encoded:
  assumes "query_value v" and "encodeURIComponent (value_text v) = Inr t"
  shows "decoded_value (JStr t) = Inr (read_back v)"
proof -
  from decode_encode_URIComponent[OF assms(2)]
  have dec: "decodeURIComponent_of (JStr t) = Inr (value_text v)"
    by (simp add: decodeURIComponent_of_def)
  from assms(1) show ?thesis
  proof (rule query_value_cases)
    fix s assume "v = JStr s" "well_formed s"
    then show ?thesis
      using dec
      by (auto simp: decoded_value_def parse_decoded_def read_back_def value_text_string
            split: sum.splits)
  next
    assume v: "json_value v" "typeof v \<noteq> ''string''"
    then have "read_back v = v"
      by (cases v) (simp_all add: read_back_def)
    with v dec JSON_parse_jtext[OF v(1)] show ?thesis
      by (simp add: decoded_value_def parse_decoded_def value_text_json)
  qed
qed

lemma entry_pair:
  assumes "plain_key k" and "query_value v" and "encodeURIComponent (value_text v) = Inr t"
  shows "carries (k, v) (k @ S ''='' @ t)"
proof -
  from encodeURIComponent_no_special[OF assms(3)]
  have t: "0x26 \<notin> set t" "0x3D \<notin> set t" "0x3F \<notin> set t"
    by simp_all
  from assms(1) have k: "0x26 \<notin> set k" "0x3D \<notin> set k" "0x3F \<notin> set k"
    by (simp_all add: plain_key_def)
  have "split 0x3D (k @ 0x3D # t) = [k, t]"
    using k(2) t(2) by (simp add: split_append_separator split_no_separator)
  then have "pair_key (k @ S ''='' @ t) = k" "pair_value (k @ S ''='' @ t) = JStr t"
    by (simp_all add: pair_key_def pair_value_def element_def S_def)
  moreover from assms(1) have "k \<noteq> S ''__proto__''"
    by (simp add: plain_key_def)
  ultimately show ?thesis
    using k t decoded_value_encoded[OF assms(2,3)] by (simp add: carries_def S_def)
qed

subsection \<open>The whole mapping\<close>

lemma params2query_pairs:
  assumes "\<forall>p\<in>set m. plain_key (fst p) \<and> query_value (snd p)"
  shows "\<exists>pairs. map_throwing params2query_pair m = Inr pairs \<and> list_all2 carries m pairs"
  using assms
proof (induction m)
  case Nil
  then show ?case by simp
next
  case (Cons p m)
  obtain k v where p: "p = (k, v)"
    by (cases p)
  from Cons.prems have kv: "plain_key k" "query_value v"
    by (simp_all add: p)
  from query_value_encodes[OF kv(2)] obtain t where t: "encodeURIComponent (value_text v) = Inr t"
    by blast
  from Cons obtain pairs where "map_throwing params2query_pair m = Inr pairs"
    "list_all2 carries m pairs"
    by auto
  moreover have "params2query_pair p = Inr (k @ S ''='' @ t)"
    by (simp add: p params2query_pair_def t)
  ultimately show ?case
    using entry_pair[OF kv t] by (simp add: p)
qed

lemma forEach_carried:
  assumes "list_all2 carries m pairs"
    and "distinct (map fst m)"
    and "fst ` set m \<inter> fst ` set acc = {}"
  shows "forEach queryParam_pair pairs \<lparr>properties = acc, prototype = pr\<rparr>
         = Inr \<lparr>properties = acc @ map (\<lambda>p. (fst p, read_back (snd p))) m, prototype = pr\<rparr>"
  using assms
proof (induction arbitrary: acc rule: list_all2_induct)
  case Nil
  then show ?case by simp
next
  case (Cons p m kv pairs)
  from Cons.hyps(1) have kv: "kv \<noteq> []" "pair_key kv = fst p"
    "decoded_value (pair_value kv) = Inr (read_back (snd p))"
    and plain: "fst p \<noteq> S ''__proto__''"
    by (simp_all add: carries_def)
  from Cons.prems(2) have fresh: "fst p \<notin> fst ` set acc"
    by auto
  from Cons.prems have "fst ` set m \<inter> fst ` set (acc @ [(fst p, read_back (snd p))]) = {}"
    by auto
  with Cons.IH Cons.prems(1)
  have "forEach queryParam_pair pairs
          \<lparr>properties = acc @ [(fst p, read_back (snd p))], prototype = pr\<rparr>
        = Inr \<lparr>properties = (acc @ [(fst p, read_back (snd p))])
                              @ map (\<lambda>p. (fst p, read_back (snd p))) m,
                prototype = pr\<rparr>"
    by simp
  moreover have "queryParam_pair \<lparr>properties = acc, prototype = pr\<rparr> kv
                 = Inr \<lparr>properties = acc @ [(fst p, read_back (snd p))], prototype = pr\<rparr>"
    using kv fresh by (simp add: queryParam_pair_eq set_property_plain[OF plain] update_fresh)
  ultimately show ?case
    by simp
qed

lemma query_string_of_query: "0x3F \<notin> set q \<Longrightarrow> query_string (S ''?'' @ q) = q"
  by (simp add: query_string_def element_def S_def split_no_separator)


text \<open>
  C1, as the code has it. Take a mapping whose keys are distinct, hold none of \<open>?\<close>,
  \<open>&\<close> and \<open>=\<close> and are not \<open>__proto__\<close>, and whose values are JSON values (no
  \<open>undefined\<close>, no negative zero), the string values well-formed UTF-16. Then
  \<open>params2query\<close> returns a query string \<open>q\<close>, and \<open>queryParam\<close> applied to a URL with that
  query string (\<open>?\<close> followed by \<open>q\<close>) returns the mapping again, in the same order,
  except that a string value which is itself JSON text comes back as the value it denotes
  (\<open>read_back\<close>).
\<close>

theorem params2query_queryParam_round_trip:
  assumes "distinct (map fst m)"
    and "\<forall>p\<in>set m. plain_key (fst p) \<and> query_value (snd p)"
  shows "\<exists>q. params2query m = Inr q
           \<and> queryParam None (S ''?'' @ q) = Inr (JObj (map (\<lambda>p. (fst p, read_back (snd p))) m))"
proof -
  from params2query_pairs[OF assms(2)] obtain pairs
    where pairs: "map_throwing params2query_pair m = Inr pairs" and car: "list_all2 carries m pairs"
    by blast
  define q where "q = join (S ''&'') pairs"
  have q: "params2query m = Inr q"
    by (simp add: params2query_def pairs q_def)
  from car have clean: "\<forall>kv\<in>set pairs. kv \<noteq> [] \<and> 0x26 \<notin> set kv \<and> 0x3F \<notin> set kv"
    by (auto simp: list_all2_conv_all_nth in_set_conv_nth carries_def)
  then have "0x3F \<notin> set q"
    unfolding q_def by (intro notin_join) (simp_all add: S_def)
  then have qs: "query_string (S ''?'' @ q) = q"
    by (rule query_string_of_query)
  have run: "forEach queryParam_pair (split 0x26 q)
               \<lparr>properties = [], prototype = ObjectPrototype\<rparr>
             = Inr \<lparr>properties = map (\<lambda>p. (fst p, read_back (snd p))) m,
                     prototype = ObjectPrototype\<rparr>"
  proof (cases pairs)
    case Nil
    with car have "m = []" by simp
    with Nil show ?thesis
      by (simp add: q_def queryParam_pair_def)
  next
    case (Cons kv kvs)
    with clean have "split 0x26 (join [0x26] pairs) = pairs"
      by (intro split_join) simp_all
    then have "split 0x26 q = pairs"
      by (simp add: q_def S_def)
    with forEach_carried[OF car assms(1), of "[]" ObjectPrototype] show ?thesis
      by simp
  qed
  from q show ?thesis
    by (intro exI[of _ q]) (simp add: queryParam_def qs run)
qed

theorem params2query_queryParam_round_trip_witness:
  "distinct (map fst [(S ''a'', JNum 1 0), (S ''b'', JStr (S ''hello'')),
                      (S ''c'', JObj [(S ''y'', JArr [JNum 15 (- 1), JNull])]), (S ''e'', JStr (S ''42''))])
   \<and> list_all (\<lambda>p. plain_key (fst p) \<and> query_value (snd p))
        [(S ''a'', JNum 1 0), (S ''b'', JStr (S ''hello'')),
         (S ''c'', JObj [(S ''y'', JArr [JNum 15 (- 1), JNull])]), (S ''e'', JStr (S ''42''))]
   \<and> params2query [(S ''a'', JNum 1 0), (S ''b'', JStr (S ''hello'')),
                    (S ''c'', JObj [(S ''y'', JArr [JNum 15 (- 1), JNull])]), (S ''e'', JStr (S ''42''))]
       = Inr (S ''a=1&b=hello&c=%7B%22y%22%3A%5B1.5%2Cnull%5D%7D&e=42'')
   \<and> queryParam None (S ''?a=1&b=hello&c=%7B%22y%22%3A%5B1.5%2Cnull%5D%7D&e=42'')
       = Inr (JObj [(S ''a'', JNum 1 0), (S ''b'', JStr (S ''hello'')),
                    (S ''c'', JObj [(S ''y'', JArr [JNum 15 (- 1), JNull])]), (S ''e'', JNum 42 0)])"
proof -
  define m where "m = [(S ''a'', JNum 1 0), (S ''b'', JStr (S ''hello'')),
                      (S ''c'', JObj [(S ''y'', JArr [JNum 15 (- 1), JNull])]), (S ''e'', JStr (S ''42''))]"
  have 1: "distinct (map fst m)"
    unfolding m_def by code_simp
  have 2: "list_all (\<lambda>p. plain_key (fst p) \<and> query_value (snd p)) m"
    unfolding m_def by code_simp
  then have every: "\<forall>p\<in>set m. plain_key (fst p) \<and> query_value (snd p)"
    by (simp add: list_all_iff)
  have 3: "params2query m = Inr (S ''a=1&b=hello&c=%7B%22y%22%3A%5B1.5%2Cnull%5D%7D&e=42'')"
    unfolding m_def by code_simp
  have 4: "map (\<lambda>p. (fst p, read_back (snd p))) m
           = [(S ''a'', JNum 1 0), (S ''b'', JStr (S ''hello'')),
              (S ''c'', JObj [(S ''y'', JArr [JNum 15 (- 1), JNull])]), (S ''e'', JNum 42 0)]"
    unfolding m_def by code_simp
  have 5: "S ''?'' @ S ''a=1&b=hello&c=%7B%22y%22%3A%5B1.5%2Cnull%5D%7D&e=42''
           = S ''?a=1&b=hello&c=%7B%22y%22%3A%5B1.5%2Cnull%5D%7D&e=42''"
    by (simp add: S_def)
  from params2query_queryParam_round_trip[OF 1 every] obtain q
    where "params2query m = Inr q"
      and "queryParam None (S ''?'' @ q) = Inr (JObj (map (\<lambda>p. (fst p, read_back (snd p))) m))"
    by blast
  with 3 have "queryParam None (S ''?'' @ S ''a=1&b=hello&c=%7B%22y%22%3A%5B1.5%2Cnull%5D%7D&e=42'')
       = Inr (JObj (map (\<lambda>p. (fst p, read_back (snd p))) m))"
    by simp
  then have "queryParam None (S ''?a=1&b=hello&c=%7B%22y%22%3A%5B1.5%2Cnull%5D%7D&e=42'')
       = Inr (JObj [(S ''a'', JNum 1 0), (S ''b'', JStr (S ''hello'')),
                    (S ''c'', JObj [(S ''y'', JArr [JNum 15 (- 1), JNull])]), (S ''e'', JNum 42 0)])"
    unfolding 4 5 .
  with 1 2 3 show ?thesis
    unfolding m_def by simp
qed

text \<open>
  C1 as stated fails twice. \<open>queryParam\<close> applied to the output of \<open>params2query\<close> itself
  finds no \<open>?\<close> in it and returns the empty mapping. And with the \<open>?\<close> in front, a key
  that holds \<open>=\<close> is not reproduced: the mapping of \<open>x=y\<close> to 1 comes back as the mapping of
  \<open>x\<close> to the string \<open>y\<close>.
\<close>

theorem params2query_queryParam_counterexample:
  "params2query [(S ''a'', JNum 1 0)] = Inr (S ''a=1'')
   \<and> queryParam None (S ''a=1'') = Inr (JObj [])
   \<and> JObj [] \<noteq> JObj [(S ''a'', JNum 1 0)]
   \<and> params2query [(S ''x=y'', JNum 1 0)] = Inr (S ''x=y=1'')
   \<and> queryParam None (S ''?x=y=1'') = Inr (JObj [(S ''x'', JStr (S ''y''))])
   \<and> JObj [(S ''x'', JStr (S ''y''))] \<noteq> JObj [(S ''x=y'', JNum 1 0)]"
proof -
  have "params2query [(S ''a'', JNum 1 0)] = Inr (S ''a=1'')"
    and "queryParam None (S ''a=1'') = Inr (JObj [])"
    and "params2query [(S ''x=y'', JNum 1 0)] = Inr (S ''x=y=1'')"
    and "queryParam None (S ''?x=y=1'') = Inr (JObj [(S ''x'', JStr (S ''y''))])"
    by code_simp+
  then show ?thesis
    by (simp add: S_def)
qed

text \<open>
  The two values that the hypotheses set apart do not come back: the entry with the key
  \<open>__proto__\<close> is lost in the setter of \<open>Object.prototype\<close>, and negative zero prints as
  \<open>0\<close> and comes back as zero.
\<close>

lemma round_trip_proto_key_lost:
  "params2query [(S ''__proto__'', JNum 1 0), (S ''a'', JNum 2 0)] = Inr (S ''__proto__=1&a=2'')
   \<and> queryParam None (S ''?__proto__=1&a=2'') = Inr (JObj [(S ''a'', JNum 2 0)])"
  by code_simp

lemma round_trip_negative_zero:
  "params2query [(S ''a'', JNegZero)] = Inr (S ''a=0'')
   \<and> queryParam None (S ''?a=0'') = Inr (JObj [(S ''a'', JNum 0 0)])
   \<and> queryParam None (S ''?a=-0'') = Inr (JObj [(S ''a'', JNegZero)])"
  by code_simp

section \<open>Properties of the DOM helpers\<close>

subsection \<open>arrayOfNodesWith\<close>

text \<open>
  C6, as the code has it: for every argument that is not jQuery-like (its \<open>jquery\<close>
  property is not truthy), not an array, not a Node, not a NodeList, not an
  HTMLCollection and not a string (the number 42, say), \<open>arrayOfNodesWith\<close> returns no
  node sequence and throws. What it throws is an \<open>Error\<close> whose message is the fixed text
  followed by the string conversion of the argument, when the argument has one; when the
  conversion throws, the function throws that exception. Either way the error holds at
  most the string form of the argument, not the argument.
\<close>

theorem arrayOfNodesWith_unsupported_input:
  assumes "\<not> jquery_like w" and "\<not> isArray w" and "\<not> instanceof_Node w"
    and "\<not> instanceof_NodeList w" and "\<not> instanceof_HTMLCollection w" and "\<not> is_string w"
  shows "\<exists>r. string_conversion w = Some r
           \<and> arrayOfNodesWith qsa w =
               Inl (case r of Inl e \<Rightarrow> e | Inr t \<Rightarrow> Error (unsupported_prefix @ t))"
  using assms
  by (cases w)
     (simp_all add: jquery_like_def isArray_def instanceof_Node_def instanceof_NodeList_def
        instanceof_HTMLCollection_def is_string_def string_conversion_def unsupported_def)

theorem arrayOfNodesWith_unsupported_input_witness:
  "\<not> jquery_like (WNumber 42 0) \<and> \<not> isArray (WNumber 42 0) \<and> \<not> instanceof_Node (WNumber 42 0)
   \<and> \<not> instanceof_NodeList (WNumber 42 0) \<and> \<not> instanceof_HTMLCollection (WNumber 42 0)
   \<and> \<not> is_string (WNumber 42 0)
   \<and> string_conversion (WNumber 42 0) = Some (Inr (S ''42''))
   \<and> arrayOfNodesWith (\<lambda>s. Inr []) (WNumber 42 0) = Inl (Error (unsupported_prefix @ S ''42''))"
proof -
  have 1: "\<not> jquery_like (WNumber 42 0)" and 2: "\<not> isArray (WNumber 42 0)"
    and 3: "\<not> instanceof_Node (WNumber 42 0)" and 4: "\<not> instanceof_NodeList (WNumber 42 0)"
    and 5: "\<not> instanceof_HTMLCollection (WNumber 42 0)" and 6: "\<not> is_string (WNumber 42 0)"
    by (simp_all add: jquery_like_def isArray_def instanceof_Node_def instanceof_NodeList_def
          instanceof_HTMLCollection_def is_string_def)
  have 7: "string_conversion (WNumber 42 0) = Some (Inr (S ''42''))"
    by code_simp
  from arrayOfNodesWith_unsupported_input[OF 1 2 3 4 5 6, of "\<lambda>s. Inr []"] 1 2 3 4 5 6 7
  show ?thesis by simp
qed

text \<open>
  C6 as stated fails: the error does not carry the argument. An object with an own
  property \<open>toString\<close> that is not callable has no string conversion, so the template
  literal throws a \<open>TypeError\<close>, which says nothing of the argument; and two different
  objects get the same \<open>Error\<close>, which holds the message and nothing else.
\<close>

theorem arrayOfNodesWith_error_counterexample:
  "arrayOfNodesWith (\<lambda>s. Inr []) (WObject [(S ''toString'', JNum 1 0)]) = Inl TypeError
   \<and> arrayOfNodesWith (\<lambda>s. Inr []) (WObject [(S ''a'', JNum 1 0)])
       = Inl (Error (unsupported_prefix @ S ''[object Object]''))
   \<and> arrayOfNodesWith (\<lambda>s. Inr []) (WObject [(S ''b'', JNum 2 0)])
       = Inl (Error (unsupported_prefix @ S ''[object Object]''))
   \<and> WObject [(S ''a'', JNum 1 0)] \<noteq> WObject [(S ''b'', JNum 2 0)]"
proof -
  have 1: "arrayOfNodesWith (\<lambda>s. Inr []) (WObject [(S ''toString'', JNum 1 0)]) = Inl TypeError"
    by code_simp
  have 2: "arrayOfNodesWith (\<lambda>s. Inr []) (WObject [(S ''a'', JNum 1 0)])
       = Inl (Error (unsupported_prefix @ S ''[object Object]''))"
    by code_simp
  have 3: "arrayOfNodesWith (\<lambda>s. Inr []) (WObject [(S ''b'', JNum 2 0)])
       = Inl (Error (unsupported_prefix @ S ''[object Object]''))"
    by code_simp
  from 1 2 3 show ?thesis by (simp add: S_def)
qed

subsection \<open>watchIntersection\<close>

lemma map_of_spread_fold:
  "map_of (fold (\<lambda>kv. AList.update (fst kv) (snd kv)) ps base) k =
     (case map_of (rev ps) k of None \<Rightarrow> map_of base k | Some v \<Rightarrow> Some v)"
proof (induction ps arbitrary: base)
  case Nil
  then show ?case by simp
next
  case (Cons p ps)
  show ?case
    by (cases p) (auto simp: Cons.IH update_conv' map_add_def split: option.splits)
qed

lemma init_fold_observe: "init (fold observe ns io) = init io"
  by (induction ns arbitrary: io) (simp_all add: observe_def)

lemma callback_log:
  "watchIntersection_callback (Some (\<lambda>n l. Inr (l @ [(True, n)])))
      (Some (\<lambda>n l. Inr (l @ [(False, n)]))) entries l0 =
   Inr (l0 @ map (\<lambda>e. (isIntersecting e, target e)) entries)"
  unfolding watchIntersection_callback_def
  by (induction entries arbitrary: l0) (simp_all add: optional_call_def)

lemma callback_no_exit_handler:
  "watchIntersection_callback yes None entries s =
   watchIntersection_callback yes (Some (\<lambda>n s. Inr s)) entries s"
  unfolding watchIntersection_callback_def
  by (induction entries arbitrary: s) (simp_all add: optional_call_def split: sum.splits)

text \<open>
  C9: the observer that \<open>watchIntersection\<close> returns was constructed with the threshold 1
  when \<open>options\<close> is absent or has no \<open>threshold\<close>, and with the threshold of \<open>options\<close>
  otherwise (the last one, should the list repeat the key). With handlers that log their
  calls, the callback logs one call for each entry, in order: the entry handler for an
  intersecting entry, the exit handler for one that is not, so the exit handler is called
  for the entries that do not intersect and for no other. Without an exit handler the
  callback does what it does with an exit handler that does nothing: the call is skipped.
\<close>

theorem watchIntersection_threshold_and_exit_handler:
  assumes "watchIntersection qsa targets options = Inr io"
  shows "get_property (init io) (S ''threshold'') =
           (case options of
              None \<Rightarrow> JNum 1 0
            | Some ps \<Rightarrow>
                (case map_of (rev ps) (S ''threshold'') of None \<Rightarrow> JNum 1 0 | Some t \<Rightarrow> t))
         \<and> watchIntersection_callback (Some (\<lambda>n l. Inr (l @ [(True, n)])))
              (Some (\<lambda>n l. Inr (l @ [(False, n)]))) entries l0 =
            Inr (l0 @ map (\<lambda>e. (isIntersecting e, target e)) entries)
         \<and> watchIntersection_callback yes None entries s =
            watchIntersection_callback yes (Some (\<lambda>n s. Inr s)) entries s"
proof -
  from assms have "init io = spread [(S ''threshold'', JNum 1 0)] options"
    by (auto simp: watchIntersection_def Let_def init_fold_observe split: sum.splits)
  then have "get_property (init io) (S ''threshold'') =
           (case options of
              None \<Rightarrow> JNum 1 0
            | Some ps \<Rightarrow>
                (case map_of (rev ps) (S ''threshold'') of None \<Rightarrow> JNum 1 0 | Some t \<Rightarrow> t))"
    by (simp add: spread_def get_property_def map_of_spread_fold split: option.splits)
  then show ?thesis
    by (intro conjI) (assumption, rule callback_log, rule callback_no_exit_handler)
qed

theorem watchIntersection_threshold_and_exit_handler_witness:
  "watchIntersection (\<lambda>s. Inr []) (WNodeList [1, 2]) (Some [(S ''threshold'', JNum 5 (- 1))])
     = Inr \<lparr>init = [(S ''threshold'', JNum 5 (- 1))], observed = [1, 2]\<rparr>
   \<and> get_property [(S ''threshold'', JNum 5 (- 1))] (S ''threshold'') = JNum 5 (- 1)
   \<and> watchIntersection (\<lambda>s. Inr []) (WNodeList [1, 2]) None
     = Inr \<lparr>init = [(S ''threshold'', JNum 1 0)], observed = [1, 2]\<rparr>
   \<and> watchIntersection_callback (Some (\<lambda>n l. Inr (l @ [(True, n)])))
        (Some (\<lambda>n l. Inr (l @ [(False, n)])))
        [\<lparr>target = 1, isIntersecting = True\<rparr>, \<lparr>target = 2, isIntersecting = False\<rparr>] []
      = Inr [(True, 1), (False, 2)]"
proof -
  have 1: "watchIntersection (\<lambda>s. Inr []) (WNodeList [1, 2])
             (Some [(S ''threshold'', JNum 5 (- 1))])
           = Inr \<lparr>init = [(S ''threshold'', JNum 5 (- 1))], observed = [1, 2]\<rparr>"
    by (simp add: watchIntersection_def spread_def observe_def)
  have 2: "watchIntersection (\<lambda>s. Inr []) (WNodeList [1, 2]) None
           = Inr \<lparr>init = [(S ''threshold'', JNum 1 0)], observed = [1, 2]\<rparr>"
    by (simp add: watchIntersection_def spread_def observe_def)
  from watchIntersection_threshold_and_exit_handler[OF 1,
      of "[\<lparr>target = 1, isIntersecting = True\<rparr>, \<lparr>target = 2, isIntersecting = False\<rparr>]" "[]"
         "None :: unit handler option" "()"]
    1 2
  show ?thesis by simp
qed

subsection \<open>preloadScript\<close>

lemma fold_dispatch_no_load:
  "LoadEvent \<notin> set evs \<Longrightarrow> fold dispatch evs st = st"
proof (induction evs)
  case Nil
  then show ?case by simp
next
  case (Cons ev evs)
  then show ?case by (cases ev) (simp_all add: dispatch_def)
qed

text \<open>
  C7, as the code has it: after \<open>preloadScript\<close> the script element is the last child of
  the head and the promise is pending. Events other than \<open>load\<close>, a failed load among
  them, change nothing, however many arrive: the promise stays pending for ever. On the
  \<open>load\<close> event the listener removes the script element; then it calls the callback, if
  there is one, which sees the document without the script element and whose effect on
  the caller's state is kept; then it resolves the promise, provided the callback has
  returned normally. After a callback that throws the promise is still pending.
\<close>

theorem preloadScript_resolves_on_load_only:
  assumes "preloadScript url callback pg = (ld, pg')"
  shows "signal ld = Pending \<and> head pg' = head pg @ [scriptEl ld] \<and> user pg' = user pg
    \<and> (LoadEvent \<notin> set evs \<longrightarrow> fold dispatch evs (ld, pg') = (ld, pg'))
    \<and> scriptEl ld \<notin> set (head (snd (dispatch LoadEvent (ld, pg'))))
    \<and> (callback = None \<longrightarrow>
          signal (fst (dispatch LoadEvent (ld, pg'))) = Fulfilled
          \<and> user (snd (dispatch LoadEvent (ld, pg'))) = user pg
          \<and> trace (snd (dispatch LoadEvent (ld, pg'))) =
              trace pg @ [ScriptRemoved (scriptEl ld), PromiseResolved])
    \<and> (\<forall>f u r. callback = Some f
          \<and> f (removeAll (scriptEl ld) (head pg')) (user pg) = (u, r) \<longrightarrow>
          user (snd (dispatch LoadEvent (ld, pg'))) = u
          \<and> signal (fst (dispatch LoadEvent (ld, pg'))) =
              (if r = None then Fulfilled else Pending)
          \<and> trace (snd (dispatch LoadEvent (ld, pg'))) =
              trace pg @ [ScriptRemoved (scriptEl ld), CallbackInvoked]
                @ (if r = None then [PromiseResolved] else []))"
proof -
  from assms have ld: "ld = \<lparr>scriptEl = elements pg, src = url, cb = callback, signal = Pending\<rparr>"
    and pg': "pg' = pg\<lparr>elements := Suc (elements pg), head := head pg @ [elements pg]\<rparr>"
    by (simp_all add: preloadScript_def Let_def)
  have 1: "signal ld = Pending \<and> head pg' = head pg @ [scriptEl ld] \<and> user pg' = user pg"
    by (simp add: ld pg')
  have 2: "LoadEvent \<notin> set evs \<longrightarrow> fold dispatch evs (ld, pg') = (ld, pg')"
    by (simp add: fold_dispatch_no_load)
  have 3: "scriptEl ld \<notin> set (head (snd (dispatch LoadEvent (ld, pg'))))"
    by (simp add: dispatch_def load_listener_def Let_def split: option.splits prod.splits)
  have 4: "callback = None \<longrightarrow>
          signal (fst (dispatch LoadEvent (ld, pg'))) = Fulfilled
          \<and> user (snd (dispatch LoadEvent (ld, pg'))) = user pg
          \<and> trace (snd (dispatch LoadEvent (ld, pg'))) =
              trace pg @ [ScriptRemoved (scriptEl ld), PromiseResolved]"
    by (simp add: dispatch_def load_listener_def Let_def ld pg')
  have 5: "\<forall>f u r. callback = Some f
          \<and> f (removeAll (scriptEl ld) (head pg')) (user pg) = (u, r) \<longrightarrow>
          user (snd (dispatch LoadEvent (ld, pg'))) = u
          \<and> signal (fst (dispatch LoadEvent (ld, pg'))) =
              (if r = None then Fulfilled else Pending)
          \<and> trace (snd (dispatch LoadEvent (ld, pg'))) =
              trace pg @ [ScriptRemoved (scriptEl ld), CallbackInvoked]
                @ (if r = None then [PromiseResolved] else [])"
    by (auto simp: dispatch_def load_listener_def Let_def ld pg')
  from 1 2 3 4 5 show ?thesis by blast
qed

theorem preloadScript_resolves_on_load_only_witness:
  "preloadScript (S ''player.js'') (Some (\<lambda>h u. (h, None)))
     \<lparr>head = [7], elements = 9, observers = [], user = [], trace = []\<rparr>
   = (\<lparr>scriptEl = 9, src = S ''player.js'', cb = Some (\<lambda>h u. (h, None)), signal = Pending\<rparr>,
      \<lparr>head = [7, 9], elements = 10, observers = [], user = [], trace = []\<rparr>)
   \<and> fold dispatch [ErrorEvent, OtherEvent (S ''abort'')]
        (\<lparr>scriptEl = 9, src = S ''player.js'', cb = Some (\<lambda>h u. (h, None)), signal = Pending\<rparr>,
         \<lparr>head = [7, 9], elements = 10, observers = [], user = [], trace = []\<rparr>)
      = (\<lparr>scriptEl = 9, src = S ''player.js'', cb = Some (\<lambda>h u. (h, None)), signal = Pending\<rparr>,
         \<lparr>head = [7, 9], elements = 10, observers = [], user = [], trace = []\<rparr>)
   \<and> dispatch LoadEvent
        (\<lparr>scriptEl = 9, src = S ''player.js'', cb = Some (\<lambda>h u. (h, None)), signal = Pending\<rparr>,
         \<lparr>head = [7, 9], elements = 10, observers = [], user = [], trace = []\<rparr>)
      = (\<lparr>scriptEl = 9, src = S ''player.js'', cb = Some (\<lambda>h u. (h, None)), signal = Fulfilled\<rparr>,
         \<lparr>head = [7], elements = 10, observers = [], user = [7],
          trace = [ScriptRemoved 9, CallbackInvoked, PromiseResolved]\<rparr>)"
proof -
  have 1: "preloadScript (S ''player.js'') (Some (\<lambda>h u. (h, None)))
     \<lparr>head = [7], elements = 9, observers = [], user = [], trace = []\<rparr>
   = (\<lparr>scriptEl = 9, src = S ''player.js'', cb = Some (\<lambda>h u. (h, None)), signal = Pending\<rparr>,
      \<lparr>head = [7, 9], elements = 10, observers = [], user = [], trace = []\<rparr>)"
    by (simp add: preloadScript_def)
  have 2: "dispatch LoadEvent
        (\<lparr>scriptEl = 9, src = S ''player.js'', cb = Some (\<lambda>h u. (h, None)), signal = Pending\<rparr>,
         \<lparr>head = [7, 9], elements = 10, observers = [], user = [], trace = []\<rparr>)
      = (\<lparr>scriptEl = 9, src = S ''player.js'', cb = Some (\<lambda>h u. (h, None)), signal = Fulfilled\<rparr>,
         \<lparr>head = [7], elements = 10, observers = [], user = [7],
          trace = [ScriptRemoved 9, CallbackInvoked, PromiseResolved]\<rparr>)"
    by (simp add: dispatch_def load_listener_def)
  from preloadScript_resolves_on_load_only[OF 1, of "[ErrorEvent, OtherEvent (S ''abort'')]"] 1 2
  show ?thesis by simp
qed

text \<open>
  C7 as stated fails for a callback that throws: the \<open>load\<close> event arrives, the script
  element is removed and the callback is called, and the promise is not resolved.
\<close>

theorem preloadScript_throwing_callback_counterexample:
  "dispatch LoadEvent
     (preloadScript (S ''player.js'') (Some (\<lambda>h u. (Suc u, Some TypeError)))
        \<lparr>head = [], elements = 0, observers = [], user = 0, trace = []\<rparr>)
   = (\<lparr>scriptEl = 0, src = S ''player.js'', cb = Some (\<lambda>h u. (Suc u, Some TypeError)),
       signal = Pending\<rparr>,
      \<lparr>head = [], elements = 1, observers = [], user = 1,
       trace = [ScriptRemoved 0, CallbackInvoked]\<rparr>)
   \<and> Pending \<noteq> Fulfilled"
  by (simp add: preloadScript_def dispatch_def load_listener_def)

subsection \<open>vimeoAutoPlay\<close>

text \<open>
  C8: when no element of the document matches \<open>.vimeo-video-box [data-vimeo-vid]\<close>,
  \<open>vimeoAutoPlay\<close> completes at once and leaves the page as it was: no script element is
  created or put into the head, no observer is constructed, nothing else changes.
\<close>

theorem vimeoAutoPlay_no_boxes_no_effect:
  assumes "qsa (S ''.vimeo-video-box [data-vimeo-vid]'') = Inr []"
  shows "vimeoAutoPlay qsa observerOptions pg = (Completed, pg)"
  using assms by (simp add: vimeoAutoPlay_def)

theorem vimeoAutoPlay_no_boxes_no_effect_witness:
  "(\<lambda>s. Inr []) (S ''.vimeo-video-box [data-vimeo-vid]'') = (Inr [] :: error + node list)
   \<and> vimeoAutoPlay (\<lambda>s. Inr []) []
        \<lparr>head = [4], elements = 7, observers = [], user = (), trace = []\<rparr>
      = (Completed, \<lparr>head = [4], elements = 7, observers = [], user = (), trace = []\<rparr>)"
  using vimeoAutoPlay_no_boxes_no_effect[of "\<lambda>s. Inr []" "[]"
      "\<lparr>head = [4], elements = 7, observers = [], user = (), trace = []\<rparr>"]
  by simp

text \<open>With a box in the document the script is injected and the function waits for it.\<close>

lemma vimeoAutoPlay_boxes_load_script:
  assumes "qsa (S ''.vimeo-video-box [data-vimeo-vid]'') = Inr (b # bs)"
  shows "snd (vimeoAutoPlay qsa observerOptions pg)
         = pg\<lparr>elements := Suc (elements pg), head := head pg @ [elements pg]\<rparr>
         \<and> fst (vimeoAutoPlay qsa observerOptions pg) \<noteq> Completed"
  using assms by (simp add: vimeoAutoPlay_def preloadScript_def Let_def)

end
